theory Spec2Isabelle
  imports Complex_Main "HOL-Library.Sublist"
begin

section \<open>Data model of the alignment core (processor.py)\<close>

text \<open>
  Python strings are sequences of Unicode code points; a code point is a natural number.
  A Python float is modelled by the real number that it denotes, so the comparisons of
  floats are the comparisons of these numbers.
\<close>

type_synonym pystr = "nat list"

text \<open>
  The arithmetic of floats rounds its results. The rounded operations are the fields of a
  \<open>float_arith\<close>, which every function that computes with floats takes as a parameter:
  the conversion \<open>float(n)\<close> of an integer and the product, quotient and difference of
  two floats. The statements about these functions hold for every such arithmetic.
  \<open>exact_arith\<close> is the arithmetic that does not round; the float operations agree with
  it wherever the exact result is a float. Where an example writes a time as a decimal
  that is not itself a float, the time is only compared or truncated, with the same
  outcome as for the float that the decimal denotes.
\<close>

record float_arith =
  fl_of_int :: "int \<Rightarrow> real"
  fl_mul :: "real \<Rightarrow> real \<Rightarrow> real"
  fl_div :: "real \<Rightarrow> real \<Rightarrow> real"
  fl_sub :: "real \<Rightarrow> real \<Rightarrow> real"

definition exact_arith :: float_arith where
  "exact_arith =
     \<lparr>fl_of_int = real_of_int, fl_mul = (\<lambda>x y. x * y), fl_div = (\<lambda>x y. x / y),
      fl_sub = (\<lambda>x y. x - y)\<rparr>"

text \<open>The exceptions that the modelled functions can raise.\<close>

datatype py_error =
    IndexError
  | KeyError
  | TypeError
  | ZeroDivisionError
  | OverflowError
  | JSONDecodeError
  | ConnectionError
  | HTTPError
  | OSError

text \<open>A speaker observation is the tuple \<open>(timestamp, label)\<close> of the source.\<close>

type_synonym observation = "real \<times> pystr"

text \<open>A speech interval is the tuple \<open>(start, end)\<close> of the source.\<close>

type_synonym interval = "real \<times> real"

subsection \<open>Timeline denoiser: \<open>filter_noisy_speakers\<close>\<close>

text \<open>
  The loop \<open>for i, record in enumerate(speaker_timeline)\<close> with its accumulator
  \<open>filtered_speaker_timeline\<close>. The three branches are the ones of the source: the
  first and the last index append and continue, a record whose speaker differs from both
  neighbours is skipped, every other record is appended.
\<close>

fun filter_noisy_loop ::
  "observation list \<Rightarrow> (nat \<times> observation) list \<Rightarrow> observation list \<Rightarrow> observation list" where
  "filter_noisy_loop speaker_timeline [] filtered = filtered"
| "filter_noisy_loop speaker_timeline ((i, record) # rest) filtered =
     (if i = 0 \<or> int i = int (length speaker_timeline) - 1
      then filter_noisy_loop speaker_timeline rest (filtered @ [record])
      else
        (let current_speaker = snd record;
             prev_speaker = snd (speaker_timeline ! (i - 1));
             next_speaker = snd (speaker_timeline ! (i + 1))
         in if current_speaker \<noteq> prev_speaker \<and> current_speaker \<noteq> next_speaker
            then filter_noisy_loop speaker_timeline rest filtered
            else filter_noisy_loop speaker_timeline rest (filtered @ [record])))"

definition enumerate_list :: "'a list \<Rightarrow> (nat \<times> 'a) list" where
  "enumerate_list xs = zip [0..<length xs] xs"

definition filter_noisy_speakers :: "observation list \<Rightarrow> observation list" where
  "filter_noisy_speakers speaker_timeline =
     filter_noisy_loop speaker_timeline (enumerate_list speaker_timeline) []"

text \<open>
  The rule in the words of the specification: index \<open>i\<close> is a flicker of the raw timeline
  when it is interior and its label differs from the label before it and from the label
  after it.
\<close>

definition flicker :: "observation list \<Rightarrow> nat \<Rightarrow> bool" where
  "flicker raw i \<longleftrightarrow>
     0 < i \<and> i + 1 < length raw \<and>
     snd (raw ! i) \<noteq> snd (raw ! (i - 1)) \<and> snd (raw ! i) \<noteq> snd (raw ! (i + 1))"

subsection \<open>Per-word speaker lookup: \<open>get_current_speaker\<close>\<close>

text \<open>
  \<open>candidates[-1][1] if candidates else speaker_timeline[0][1]\<close>. Indexing an empty
  timeline raises \<open>IndexError\<close>. The parameter \<open>intervals\<close> is not read by the source.
\<close>

definition get_current_speaker ::
  "real \<Rightarrow> interval list \<Rightarrow> observation list \<Rightarrow> py_error + pystr" where
  "get_current_speaker current_timestamp intervals speaker_timeline =
     (let candidates = filter (\<lambda>s. fst s \<le> current_timestamp) speaker_timeline
      in if candidates \<noteq> [] then Inr (snd (last candidates))
         else (case speaker_timeline of
                 [] \<Rightarrow> Inl IndexError
               | s # _ \<Rightarrow> Inr (snd s)))"

subsection \<open>Transcribed words and segments\<close>

text \<open>
  A word of the speech engine is a dictionary with the keys \<open>"word"\<close>, \<open>"start"\<close> and
  \<open>"end"\<close>; a segment is a dictionary with \<open>"start"\<close>, \<open>"end"\<close> and \<open>"words"\<close>.
\<close>

record timed_word =
  word_word :: pystr
  word_start :: real
  word_end :: real

record transcript_segment =
  segment_start :: real
  segment_end :: real
  segment_words :: "timed_word list"

text \<open>
  The flattening done by \<open>extract_transcribed_words\<close> on the engine's segments:
  \<open>words.extend(segment.get("words", []))\<close> for every segment.
\<close>

definition flatten_words :: "transcript_segment list \<Rightarrow> timed_word list" where
  "flatten_words segments = concat (map segment_words segments)"

subsection \<open>Speech interval segmenter: \<open>extract_speech_intervals\<close>\<close>

definition silence_threshold :: real where
  "silence_threshold = 2.0"

text \<open>
  The loop over the words with its two variables \<open>switch_points\<close> and \<open>prev_end_time\<close>;
  \<open>prev_end_time\<close> is \<open>None\<close> before the first word, and the entry pushed after the
  loop is \<open>prev_end_time\<close> whatever it is, so the list holds optional values.
\<close>

fun silence_scan ::
  "float_arith \<Rightarrow> timed_word list \<Rightarrow> real option list \<times> real option
     \<Rightarrow> real option list \<times> real option" where
  "silence_scan fl [] state = state"
| "silence_scan fl (word # rest) (switch_points, prev_end_time) =
     (let word_start = word_start word;
          word_end = word_end word;
          switch_points' =
            (case prev_end_time of
               None \<Rightarrow> switch_points @ [Some word_start]
             | Some prev \<Rightarrow>
                 if fl_sub fl word_start prev \<ge> silence_threshold
                 then switch_points @ [Some word_start]
                 else switch_points)
      in silence_scan fl rest (switch_points', Some word_end))"

text \<open>
  The source builds \<open>switch_points\<close> from the words and \<open>segment_switch_points\<close> from the
  segments, and then sorts the set of \<open>segment_switch_points\<close> alone: \<open>switch_points\<close> is
  not read again after the push of the last end time.
\<close>

definition extract_speech_intervals ::
  "float_arith \<Rightarrow> transcript_segment list \<Rightarrow> timed_word list \<Rightarrow> interval list" where
  "extract_speech_intervals fl segments words =
     (let (switch_points, prev_end_time) = silence_scan fl words ([], None);
          switch_points = switch_points @ [prev_end_time];
          segment_switch_points =
            concat (map (\<lambda>segment. [segment_start segment, segment_end segment]) segments);
          all_switch_points = sorted_list_of_set (set segment_switch_points)
      in map (\<lambda>i. (all_switch_points ! i, all_switch_points ! (i + 1)))
           [0..<length all_switch_points - 1])"

text \<open>
  The segmenter in the words of the specification. The silence-gap points of a word list:
  the first word's start, every start whose gap from the previous word's end exceeds the
  threshold, and the last word's end. The pooled switch points: these together with every
  segment start and end, without duplicates, ascending. The intervals: the consecutive
  pairs of the pooled list.
\<close>

definition spec_silence_points :: "timed_word list \<Rightarrow> real list" where
  "spec_silence_points words =
     (if words = [] then []
      else [word_start (hd words)]
         @ map (\<lambda>i. word_start (words ! i))
             (filter (\<lambda>i. word_start (words ! i) - word_end (words ! (i - 1)) > 2.0)
                [1..<length words])
         @ [word_end (last words)])"

definition spec_switch_points :: "transcript_segment list \<Rightarrow> timed_word list \<Rightarrow> real list" where
  "spec_switch_points segments words =
     sorted_list_of_set
       (set (spec_silence_points words
             @ concat (map (\<lambda>segment. [segment_start segment, segment_end segment]) segments)))"

definition consecutive_pairs :: "'a list \<Rightarrow> ('a \<times> 'a) list" where
  "consecutive_pairs xs = zip xs (tl xs)"

definition spec_speech_intervals ::
  "transcript_segment list \<Rightarrow> timed_word list \<Rightarrow> interval list" where
  "spec_speech_intervals segments words = consecutive_pairs (spec_switch_points segments words)"

text \<open>A time is covered by an interval list when some interval's closed span holds it.\<close>

definition covered :: "interval list \<Rightarrow> real \<Rightarrow> bool" where
  "covered intervals t \<longleftrightarrow> (\<exists>iv \<in> set intervals. fst iv \<le> t \<and> t \<le> snd iv)"

subsection \<open>Interval speaker resolver: \<open>assign_speakers_to_intervals\<close>\<close>

text \<open>
  \<open>Counter(speakers)\<close> keeps the distinct elements in the order of their first occurrence,
  each with its number of occurrences; \<open>most_common(1)\<close> is \<open>max\<close> over the items by
  count, which returns the first item among those of greatest count.
\<close>

definition counter_items :: "'a list \<Rightarrow> ('a \<times> nat) list" where
  "counter_items xs = map (\<lambda>x. (x, count_list xs x)) (rev (remdups (rev xs)))"

fun max_by_count :: "('a \<times> nat) \<Rightarrow> ('a \<times> nat) list \<Rightarrow> ('a \<times> nat)" where
  "max_by_count best [] = best"
| "max_by_count best (item # rest) =
     (if snd item > snd best then max_by_count item rest else max_by_count best rest)"

definition most_common_1 :: "'a list \<Rightarrow> ('a \<times> nat) list" where
  "most_common_1 xs =
     (case counter_items xs of [] \<Rightarrow> [] | item # rest \<Rightarrow> [max_by_count item rest])"

definition get_majority_speaker :: "pystr list \<Rightarrow> pystr option" where
  "get_majority_speaker speakers =
     (if speakers = [] then None
      else if length speakers = 1 then Some (speakers ! 0)
      else (let most_common = most_common_1 speakers
            in if most_common \<noteq> [] then Some (fst (most_common ! 0)) else None))"

text \<open>
  \<open>list(set(...))\<close> lists the distinct elements of its argument in an order that Python
  does not fix; the conversion is the parameter \<open>list_of_set\<close>, and the properties are
  stated for every conversion that returns the distinct elements of its argument.
\<close>

definition set_conversion :: "(pystr list \<Rightarrow> pystr list) \<Rightarrow> bool" where
  "set_conversion list_of_set \<longleftrightarrow>
     (\<forall>xs. set (list_of_set xs) = set xs \<and> distinct (list_of_set xs))"

definition interval_speakers ::
  "(pystr list \<Rightarrow> pystr list) \<Rightarrow> observation list \<Rightarrow> interval \<Rightarrow> pystr list" where
  "interval_speakers list_of_set speaker_timeline interval =
     list_of_set
       (map snd (filter (\<lambda>s. fst interval \<le> fst s \<and> fst s \<le> snd interval) speaker_timeline))"

fun assign_loop ::
  "(pystr list \<Rightarrow> pystr list) \<Rightarrow> observation list \<Rightarrow> interval list
     \<Rightarrow> (interval \<rightharpoonup> pystr option) \<Rightarrow> (interval \<rightharpoonup> pystr option)" where
  "assign_loop list_of_set speaker_timeline [] interval_to_speaker = interval_to_speaker"
| "assign_loop list_of_set speaker_timeline (interval # rest) interval_to_speaker =
     (let speakers = interval_speakers list_of_set speaker_timeline interval
      in assign_loop list_of_set speaker_timeline rest
           (interval_to_speaker(interval \<mapsto> get_majority_speaker speakers)))"

definition assign_speakers_to_intervals ::
  "(pystr list \<Rightarrow> pystr list) \<Rightarrow> interval list \<Rightarrow> observation list
     \<Rightarrow> (interval \<rightharpoonup> pystr option)" where
  "assign_speakers_to_intervals list_of_set intervals speaker_timeline =
     assign_loop list_of_set speaker_timeline intervals Map.empty"

text \<open>
  Two inputs of the segmenter, each a single segment of the speech engine with its words.
  In \<open>pause_segments\<close> the second word starts 2.5 seconds after the first one ends; in
  \<open>early_word_segments\<close> the first word starts before the segment does.
\<close>

definition pause_segments :: "transcript_segment list" where
  "pause_segments =
     [\<lparr>segment_start = 0, segment_end = 10, segment_words =
        [\<lparr>word_word = [97], word_start = 0, word_end = 0.5\<rparr>,
         \<lparr>word_word = [98], word_start = 3, word_end = 3.5\<rparr>,
         \<lparr>word_word = [99], word_start = 4, word_end = 10\<rparr>]\<rparr>]"

definition early_word_segments :: "transcript_segment list" where
  "early_word_segments =
     [\<lparr>segment_start = 1, segment_end = 2, segment_words =
        [\<lparr>word_word = [97], word_start = 0.4, word_end = 1.2\<rparr>,
         \<lparr>word_word = [98], word_start = 1.2, word_end = 2\<rparr>]\<rparr>]"

text \<open>
  The labels in range, in the words of the specification: the set of the labels of the
  observations whose timestamp lies in the closed span of the interval.
\<close>

definition labels_in_range :: "observation list \<Rightarrow> interval \<Rightarrow> pystr set" where
  "labels_in_range speaker_timeline interval =
     {label. \<exists>timestamp. (timestamp, label) \<in> set speaker_timeline
               \<and> fst interval \<le> timestamp \<and> timestamp \<le> snd interval}"

subsection \<open>Strings: literals, whitespace, decimal numerals\<close>

text \<open>A literal of the source, as the code points of its characters.\<close>

definition lit :: "string \<Rightarrow> pystr" where
  "lit s = map of_char s"

text \<open>
  The characters that \<open>str.strip()\<close> removes and that \<open>\s\<close> matches in a \<open>str\<close>
  pattern: the Unicode whitespace code points.
\<close>

definition is_space :: "nat \<Rightarrow> bool" where
  "is_space c \<longleftrightarrow>
     (9 \<le> c \<and> c \<le> 13) \<or> (28 \<le> c \<and> c \<le> 32) \<or> c = 133 \<or> c = 160 \<or> c = 5760
     \<or> (8192 \<le> c \<and> c \<le> 8202) \<or> c = 8232 \<or> c = 8233 \<or> c = 8239 \<or> c = 8287
     \<or> c = 12288"

definition py_strip :: "pystr \<Rightarrow> pystr" where
  "py_strip s = rev (dropWhile is_space (rev (dropWhile is_space s)))"

fun digits :: "nat \<Rightarrow> pystr" where
  "digits n = (if n < 10 then [48 + n] else digits (n div 10) @ [48 + n mod 10])"

declare digits.simps [simp del]

text \<open>\<open>"%d" % n\<close> and \<open>"%02d" % n\<close>.\<close>

definition format_d :: "int \<Rightarrow> pystr" where
  "format_d n = (if n < 0 then 45 # digits (nat (- n)) else digits (nat n))"

definition format_02d :: "int \<Rightarrow> pystr" where
  "format_02d n =
     (if n < 0 then 45 # digits (nat (- n))
      else if n < 10 then 48 # digits (nat n)
      else digits (nat n))"

subsection \<open>Timestamps of transcript lines: \<open>seconds_to_hms\<close>\<close>

text \<open>\<open>int(seconds)\<close> of a float truncates towards zero.\<close>

definition py_int :: "real \<Rightarrow> int" where
  "py_int x = (if x \<ge> 0 then \<lfloor>x\<rfloor> else \<lceil>x\<rceil>)"

text \<open>
  \<open>timedelta(seconds=n)\<close> normalises to days and seconds of the day with
  \<open>divmod(n, 86400)\<close> and raises \<open>OverflowError\<close> when the number of days has a magnitude
  above 999999999. Its \<open>str\<close> is \<open>H:MM:SS\<close>, after \<open>D day, \<close> or \<open>D days, \<close> when the
  number of days is not zero.
\<close>

definition timedelta :: "int \<Rightarrow> py_error + int \<times> int" where
  "timedelta n =
     (let days = n div 86400; seconds = n mod 86400
      in if \<bar>days\<bar> > 999999999 then Inl OverflowError else Inr (days, seconds))"

definition timedelta_str :: "int \<times> int \<Rightarrow> pystr" where
  "timedelta_str td =
     (let days = fst td; seconds = snd td;
          mm = seconds div 60; ss = seconds mod 60;
          hh = mm div 60; mm = mm mod 60;
          s = format_d hh @ lit '':'' @ format_02d mm @ lit '':'' @ format_02d ss
      in if days \<noteq> 0
         then format_d days @ lit '' day'' @ (if \<bar>days\<bar> \<noteq> 1 then lit ''s'' else [])
              @ lit '', '' @ s
         else s)"

definition seconds_to_hms :: "real \<Rightarrow> py_error + pystr" where
  "seconds_to_hms seconds =
     (case timedelta (py_int seconds) of
        Inl e \<Rightarrow> Inl e
      | Inr td \<Rightarrow> Inr (timedelta_str td))"

subsection \<open>Transcript assembler: the word loop of \<open>transcribe_with_speakers\<close>\<close>

text \<open>A transcript line is the tuple \<open>(timestamp, speaker, text)\<close>.\<close>

type_synonym transcript_line = "pystr \<times> pystr \<times> pystr"

definition line_text :: "transcript_line \<Rightarrow> pystr" where
  "line_text line = snd (snd line)"

text \<open>
  The block that the source runs at a change of speaker and once more after the loop:
  \<open>if current_speaker is not None\<close>, the line of the current run is appended, its text
  stripped. \<open>start_time\<close> is \<open>None\<close> until the first word has set it.
\<close>

definition append_line ::
  "transcript_line list \<Rightarrow> pystr option \<Rightarrow> pystr \<Rightarrow> real option
     \<Rightarrow> py_error + transcript_line list" where
  "append_line transcript_lines current_speaker current_text start_time =
     (case current_speaker of
        None \<Rightarrow> Inr transcript_lines
      | Some speaker \<Rightarrow>
          (case (case start_time of None \<Rightarrow> Inl TypeError | Some t \<Rightarrow> seconds_to_hms t) of
             Inl e \<Rightarrow> Inl e
           | Inr timestamp \<Rightarrow>
               Inr (transcript_lines @ [(timestamp, speaker, py_strip current_text)])))"

type_synonym assembler_state =
  "transcript_line list \<times> pystr option \<times> pystr \<times> real option"

fun assemble_loop ::
  "observation list \<Rightarrow> interval list \<Rightarrow> timed_word list \<Rightarrow> assembler_state
     \<Rightarrow> py_error + assembler_state" where
  "assemble_loop speaker_timeline intervals [] state = Inr state"
| "assemble_loop speaker_timeline intervals (word # rest)
     (transcript_lines, current_speaker, current_text, start_time) =
     (let word_start = word_start word;
          word_text = word_word word
      in case get_current_speaker word_start intervals speaker_timeline of
           Inl e \<Rightarrow> Inl e
         | Inr speaker \<Rightarrow>
             if Some speaker \<noteq> current_speaker
             then (case append_line transcript_lines current_speaker current_text start_time of
                     Inl e \<Rightarrow> Inl e
                   | Inr transcript_lines' \<Rightarrow>
                       assemble_loop speaker_timeline intervals rest
                         (transcript_lines', Some speaker, word_text, Some word_start))
             else assemble_loop speaker_timeline intervals rest
                    (transcript_lines, current_speaker, current_text @ word_text, start_time))"

text \<open>The block after the loop, on the state that the loop has left.\<close>

definition after_loop :: "py_error + assembler_state \<Rightarrow> py_error + transcript_line list" where
  "after_loop result =
     (case result of
        Inl e \<Rightarrow> Inl e
      | Inr (transcript_lines, current_speaker, current_text, start_time) \<Rightarrow>
          append_line transcript_lines current_speaker current_text start_time)"

definition assemble_transcript ::
  "observation list \<Rightarrow> interval list \<Rightarrow> timed_word list \<Rightarrow> py_error + transcript_line list" where
  "assemble_transcript speaker_timeline intervals words =
     after_loop (assemble_loop speaker_timeline intervals words ([], None, [], None))"

text \<open>The word starts for which \<open>seconds_to_hms\<close> returns.\<close>

definition hms_defined :: "real \<Rightarrow> bool" where
  "hms_defined seconds \<longleftrightarrow> \<bar>py_int seconds div 86400\<bar> \<le> 999999999"

text \<open>The text of a run of words: their texts, concatenated in order.\<close>

definition words_text :: "timed_word list \<Rightarrow> pystr" where
  "words_text words = concat (map word_word words)"

text \<open>
  An input of the assembler: one speaker on screen, and two words with the leading blank
  that the speech engine puts before each word.
\<close>

definition one_speaker_timeline :: "observation list" where
  "one_speaker_timeline = [(0, lit ''Al Bo'')]"

definition spaced_words :: "timed_word list" where
  "spaced_words =
     [\<lparr>word_word = lit '' a'', word_start = 0, word_end = 0.5\<rparr>,
      \<lparr>word_word = lit '' b'', word_start = 0.6, word_end = 1\<rparr>]"

subsection \<open>Name-shape validator: \<open>is_valid_name\<close>\<close>

text \<open>
  The pattern language that the validator uses: character classes given by inclusive
  ranges of code points, the whitespace class \<open>\s\<close>, concatenation, and the repetitions
  \<open>*\<close> and \<open>+\<close>. \<open>Zero\<close>, \<open>One\<close> and \<open>Alt\<close> are there for the matcher's residuals.
\<close>

datatype regex =
    Zero
  | One
  | Cls "(nat \<times> nat) list"
  | Whitespace
  | Cat regex regex
  | Alt regex regex
  | Star regex
  | Plus regex

definition in_ranges :: "nat \<Rightarrow> (nat \<times> nat) list \<Rightarrow> bool" where
  "in_ranges c ranges \<longleftrightarrow> list_ex (\<lambda>r. fst r \<le> c \<and> c \<le> snd r) ranges"

text \<open>The strings that a pattern matches as a whole.\<close>

definition conc :: "pystr set \<Rightarrow> pystr set \<Rightarrow> pystr set" where
  "conc A B = {u @ v | u v. u \<in> A \<and> v \<in> B}"

definition star :: "pystr set \<Rightarrow> pystr set" where
  "star A = {concat ws | ws. set ws \<subseteq> A}"

primrec lang :: "regex \<Rightarrow> pystr set" where
  "lang Zero = {}"
| "lang One = {[]}"
| "lang (Cls ranges) = {[c] | c. in_ranges c ranges}"
| "lang Whitespace = {[c] | c. is_space c}"
| "lang (Cat r s) = conc (lang r) (lang s)"
| "lang (Alt r s) = lang r \<union> lang s"
| "lang (Star r) = star (lang r)"
| "lang (Plus r) = conc (lang r) (star (lang r))"

text \<open>
  Matching by residuals: \<open>deriv c r\<close> matches what \<open>r\<close> matches after a first character
  \<open>c\<close>, and the whole string is matched when the residual after its last character
  matches the empty string.
\<close>

primrec nullable :: "regex \<Rightarrow> bool" where
  "nullable Zero = False"
| "nullable One = True"
| "nullable (Cls ranges) = False"
| "nullable Whitespace = False"
| "nullable (Cat r s) = (nullable r \<and> nullable s)"
| "nullable (Alt r s) = (nullable r \<or> nullable s)"
| "nullable (Star r) = True"
| "nullable (Plus r) = nullable r"

fun cat :: "regex \<Rightarrow> regex \<Rightarrow> regex" where
  "cat Zero s = Zero"
| "cat One s = s"
| "cat r s = Cat r s"

fun alt :: "regex \<Rightarrow> regex \<Rightarrow> regex" where
  "alt Zero s = s"
| "alt r Zero = r"
| "alt r s = Alt r s"

primrec deriv :: "nat \<Rightarrow> regex \<Rightarrow> regex" where
  "deriv c Zero = Zero"
| "deriv c One = Zero"
| "deriv c (Cls ranges) = (if in_ranges c ranges then One else Zero)"
| "deriv c Whitespace = (if is_space c then One else Zero)"
| "deriv c (Cat r s) =
     (if nullable r then alt (cat (deriv c r) s) (deriv c s) else cat (deriv c r) s)"
| "deriv c (Alt r s) = alt (deriv c r) (deriv c s)"
| "deriv c (Star r) = cat (deriv c r) (Star r)"
| "deriv c (Plus r) = cat (deriv c r) (Star r)"

definition fullmatch :: "regex \<Rightarrow> pystr \<Rightarrow> bool" where
  "fullmatch r s = nullable (foldl (\<lambda>r c. deriv c r) r s)"

text \<open>
  The classes of the pattern: the uppercase class, \<open>A-Z\<close> and the accented capitals
  U+00C0 to U+00DD; the lowercase class, \<open>a-z\<close> and the accented small letters U+00E0
  to U+00FF; and the joiner class \<open>['-]\<close>.
\<close>

definition upper_class :: regex where
  "upper_class = Cls [(65, 90), (192, 221)]"

definition lower_class :: regex where
  "lower_class = Cls [(97, 122), (224, 255)]"

definition joiner_class :: regex where
  "joiner_class = Cls [(39, 39), (45, 45)]"

text \<open>
  One token of the pattern, \<open>U L* (?: J U L+ )*\<close> with \<open>U\<close>, \<open>L\<close> and \<open>J\<close> the
  uppercase, lowercase and joiner classes, and the
  whole pattern, \<open>(token\s)+token\<close>. The anchors \<open>^\<close> and \<open>$\<close> stand at the two ends
  of the pattern and \<open>re.fullmatch\<close> matches the whole string, so they add no condition.
\<close>

definition token_pattern :: regex where
  "token_pattern =
     Cat upper_class
       (Cat (Star lower_class)
            (Star (Cat joiner_class (Cat upper_class (Plus lower_class)))))"

definition name_pattern :: regex where
  "name_pattern = Cat (Plus (Cat token_pattern Whitespace)) token_pattern"

definition is_valid_name :: "pystr \<Rightarrow> bool" where
  "is_valid_name name = fullmatch name_pattern name"

text \<open>
  The shape that the pattern describes. An uppercase letter is a code point of
  the uppercase class, a lowercase letter one of the lowercase class. The head of a token is an
  uppercase letter and then lowercase letters, possibly none; a joined part is an
  apostrophe or a hyphen, an uppercase letter and then at least one lowercase letter; a
  token is a head and then joined parts, possibly none; a name is one or more tokens each
  followed by one whitespace character, and then a last token.
\<close>

definition uppercase :: "nat \<Rightarrow> bool" where
  "uppercase c \<longleftrightarrow> (65 \<le> c \<and> c \<le> 90) \<or> (192 \<le> c \<and> c \<le> 221)"

definition lowercase :: "nat \<Rightarrow> bool" where
  "lowercase c \<longleftrightarrow> (97 \<le> c \<and> c \<le> 122) \<or> (224 \<le> c \<and> c \<le> 255)"

definition token_head :: "pystr \<Rightarrow> bool" where
  "token_head w \<longleftrightarrow> (\<exists>u ls. w = u # ls \<and> uppercase u \<and> list_all lowercase ls)"

definition joined_part :: "pystr \<Rightarrow> bool" where
  "joined_part w \<longleftrightarrow>
     (\<exists>q u ls. w = q # u # ls \<and> (q = 39 \<or> q = 45) \<and> uppercase u
        \<and> ls \<noteq> [] \<and> list_all lowercase ls)"

definition name_token :: "pystr \<Rightarrow> bool" where
  "name_token t \<longleftrightarrow> (\<exists>w js. t = w @ concat js \<and> token_head w \<and> list_all joined_part js)"

definition name_shape :: "pystr \<Rightarrow> bool" where
  "name_shape s \<longleftrightarrow>
     (\<exists>ts seps t. s = concat (map (\<lambda>(t, sep). t @ [sep]) (zip ts seps)) @ t
        \<and> ts \<noteq> [] \<and> length seps = length ts
        \<and> list_all name_token ts \<and> list_all is_space seps \<and> name_token t)"

text \<open>
  The general rule in the words of the specification: a capitalized word is an uppercase
  first letter and a lowercase remainder; a token is a capitalized word, optionally joined
  by a hyphen or an apostrophe to another capitalized word; a name is at least two tokens
  separated by whitespace.
\<close>

definition capitalized_word :: "pystr \<Rightarrow> bool" where
  "capitalized_word w \<longleftrightarrow> (\<exists>u ls. w = u # ls \<and> uppercase u \<and> list_all lowercase ls)"

definition spec_token :: "pystr \<Rightarrow> bool" where
  "spec_token t \<longleftrightarrow>
     capitalized_word t
     \<or> (\<exists>a q b. t = a @ q # b \<and> (q = 39 \<or> q = 45) \<and> capitalized_word a \<and> capitalized_word b)"

definition spec_name :: "pystr \<Rightarrow> bool" where
  "spec_name s \<longleftrightarrow>
     (\<exists>ts seps t. s = concat (map (\<lambda>(t, sep). t @ [sep]) (zip ts seps)) @ t
        \<and> ts \<noteq> [] \<and> length seps = length ts
        \<and> list_all spec_token ts \<and> list_all is_space seps \<and> spec_token t)"

subsection \<open>Visual speaker sampler: \<open>extract_speaker_labels\<close>\<close>

definition FRAME_INTERVAL :: int where
  "FRAME_INTERVAL = 1"

definition VOICE_TIMESTAMP_OFFSET :: "real option" where
  "VOICE_TIMESTAMP_OFFSET = Some 2.5"

text \<open>
  The crop boxes are float literals; 0.0 and 0.5 are floats, and the floats that the
  literals 0.9, 0.2, 0.1 and 0.7 denote are the fractions written here.
\<close>

definition PRIMARY_CROP_BOX :: "real \<times> real \<times> real \<times> real" where
  "PRIMARY_CROP_BOX =
     (0, 8106479329266893 / 9007199254740992, 3602879701896397 / 18014398509481984,
      3602879701896397 / 36028797018963968)"

definition SECONDARY_CROP_BOX :: "real \<times> real \<times> real \<times> real" where
  "SECONDARY_CROP_BOX =
     (3152519739159347 / 4503599627370496, 1 / 2, 3602879701896397 / 18014398509481984,
      3602879701896397 / 18014398509481984)"

text \<open>
  The video and the text recogniser are outside the source. A crop box is the tuple
  \<open>(x, y, w, h)\<close> in pixels; a decoded frame is given by what the recogniser reads in
  each crop of it, the texts of its detections in order. A capture holds the properties
  that \<open>cap.get\<close> returns and the frames that \<open>cap.read\<close> returns after
  \<open>cap.set(CAP_PROP_POS_FRAMES, frame_idx)\<close>: the read succeeds for the indices of
  the list and fails elsewhere.
\<close>

type_synonym crop_box = "int \<times> int \<times> int \<times> int"

type_synonym frame = "crop_box \<Rightarrow> pystr list"

record video_capture =
  cap_opened :: bool
  cap_fps :: real
  cap_width :: real
  cap_height :: real
  cap_frame_count :: real
  cap_frames :: "frame list"

text \<open>
  \<open>frame_skip = int(fps * FRAME_INTERVAL)\<close>: the product of a float and the integer 1
  is the float itself. \<open>total_frames = int(cap.get(CAP_PROP_FRAME_COUNT))\<close>.
\<close>

definition frame_skip_of :: "video_capture \<Rightarrow> int" where
  "frame_skip_of cap = py_int (cap_fps cap * real_of_int FRAME_INTERVAL)"

definition total_frames_of :: "video_capture \<Rightarrow> int" where
  "total_frames_of cap = py_int (cap_frame_count cap)"

text \<open>\<open>get_crop_box\<close>: each entry is \<open>int\<close> of the float product of a dimension and a fraction.\<close>

definition get_crop_box ::
  "float_arith \<Rightarrow> int \<Rightarrow> int \<Rightarrow> real \<times> real \<times> real \<times> real \<Rightarrow> crop_box" where
  "get_crop_box fl width height crop_rel =
     (case crop_rel of (x_rel, y_rel, w_rel, h_rel) \<Rightarrow>
        (py_int (fl_mul fl (fl_of_int fl width) x_rel),
         py_int (fl_mul fl (fl_of_int fl height) y_rel),
         py_int (fl_mul fl (fl_of_int fl width) w_rel),
         py_int (fl_mul fl (fl_of_int fl height) h_rel)))"

definition primary_box_of :: "float_arith \<Rightarrow> video_capture \<Rightarrow> crop_box" where
  "primary_box_of fl cap =
     get_crop_box fl (py_int (cap_width cap)) (py_int (cap_height cap)) PRIMARY_CROP_BOX"

definition secondary_box_of :: "float_arith \<Rightarrow> video_capture \<Rightarrow> crop_box" where
  "secondary_box_of fl cap =
     get_crop_box fl (py_int (cap_width cap)) (py_int (cap_height cap)) SECONDARY_CROP_BOX"

text \<open>\<open>try_ocr\<close>: the stripped text of the first detection, or \<open>None\<close>.\<close>

definition try_ocr :: "frame \<Rightarrow> crop_box \<Rightarrow> pystr option" where
  "try_ocr frame box =
     (case frame box of
        [] \<Rightarrow> None
      | text # _ \<Rightarrow> Some (py_strip text))"

text \<open>\<open>not text\<close> holds for \<open>None\<close> and for the empty string.\<close>

definition falsy :: "pystr option \<Rightarrow> bool" where
  "falsy text \<longleftrightarrow> text = None \<or> text = Some []"

text \<open>\<open>text.replace("0", "O")\<close>.\<close>

definition replace_zero :: "pystr \<Rightarrow> pystr" where
  "replace_zero text = map (\<lambda>c. if c = 48 then 79 else c) text"

text \<open>
  \<open>timestamp = frame_idx / fps\<close>, the float quotient of \<open>float(frame_idx)\<close> and
  \<open>fps\<close>, and then, the offset not being \<open>None\<close>,
  \<open>max(0.0, timestamp - VOICE_TIMESTAMP_OFFSET)\<close> with the float difference.
\<close>

definition frame_timestamp :: "float_arith \<Rightarrow> int \<Rightarrow> real \<Rightarrow> real" where
  "frame_timestamp fl frame_idx fps =
     (let timestamp = fl_div fl (fl_of_int fl frame_idx) fps
      in case VOICE_TIMESTAMP_OFFSET of
           None \<Rightarrow> timestamp
         | Some offset \<Rightarrow> max 0.0 (fl_sub fl timestamp offset))"

text \<open>
  The body of the sampling loop after the frame has been read: the state is the list
  \<open>results\<close> and \<open>last_valid_speaker\<close>.
\<close>

definition sample_frame ::
  "real \<Rightarrow> frame \<Rightarrow> crop_box \<Rightarrow> crop_box \<Rightarrow> observation list \<times> pystr option
     \<Rightarrow> observation list \<times> pystr option" where
  "sample_frame timestamp frame primary_box secondary_box state =
     (case state of (results, last_valid_speaker) \<Rightarrow>
        (let text = try_ocr frame primary_box;
             text = (if falsy text then try_ocr frame secondary_box else text)
         in if \<not> falsy text
            then (let text = replace_zero (the text)
                  in if is_valid_name text
                     then (results @ [(timestamp, text)], Some text)
                     else (case last_valid_speaker of
                             Some speaker \<Rightarrow> (results @ [(timestamp, speaker)], last_valid_speaker)
                           | None \<Rightarrow> (results, last_valid_speaker)))
            else (case last_valid_speaker of
                    Some speaker \<Rightarrow> (results @ [(timestamp, speaker)], last_valid_speaker)
                  | None \<Rightarrow> (results, last_valid_speaker))))"

text \<open>
  The loop \<open>while cap.isOpened()\<close>: it stops at the first read that fails, and each
  round advances \<open>frame_idx\<close> by \<open>frame_skip\<close>. When a message queue is given
  (\<open>message_queue\<close> is then true) the round ends with the progress
  \<open>int(min(1.0, frame_idx / total_frames) * 100)\<close>, whose division of two integers
  raises \<open>ZeroDivisionError\<close> when \<open>total_frames\<close> is 0; the messages themselves change
  nothing else and are left out. The source reaches the loop only with \<open>frame_skip\<close> not
  zero, since \<open>total_frames // frame_skip\<close> has raised otherwise; the test on
  \<open>frame_skip\<close> makes this explicit.
\<close>

function sample_loop ::
  "float_arith \<Rightarrow> bool \<Rightarrow> video_capture \<Rightarrow> crop_box \<Rightarrow> crop_box \<Rightarrow> int \<Rightarrow> int \<Rightarrow> int
     \<Rightarrow> observation list \<times> pystr option
     \<Rightarrow> py_error + observation list \<times> pystr option" where
  "sample_loop fl message_queue cap primary_box secondary_box frame_skip total_frames
     frame_idx state =
     (if cap_opened cap \<and> frame_skip \<noteq> 0
         \<and> 0 \<le> frame_idx \<and> frame_idx < int (length (cap_frames cap))
      then (if message_queue \<and> total_frames = 0 then Inl ZeroDivisionError
            else sample_loop fl message_queue cap primary_box secondary_box frame_skip
                   total_frames (frame_idx + frame_skip)
                   (sample_frame (frame_timestamp fl frame_idx (cap_fps cap))
                      (cap_frames cap ! nat frame_idx) primary_box secondary_box state))
      else Inr state)"
  by pat_completeness auto
termination
  by (relation "measure (\<lambda>(fl, message_queue, cap, primary_box, secondary_box, frame_skip,
          total_frames, frame_idx, state).
        if frame_skip > 0 then nat (int (length (cap_frames cap)) - frame_idx)
        else nat (frame_idx + 1))") auto

declare sample_loop.simps [simp del]

text \<open>
  The raw timeline: the list \<open>results\<close> that the source hands to
  \<open>filter_noisy_speakers\<close>. \<open>total_checks = total_frames // frame_skip\<close> raises
  \<open>ZeroDivisionError\<close> before the loop when \<open>frame_skip\<close> is 0.
\<close>

definition raw_speaker_labels ::
  "float_arith \<Rightarrow> video_capture \<Rightarrow> bool \<Rightarrow> py_error + observation list" where
  "raw_speaker_labels fl cap message_queue =
     (if frame_skip_of cap = 0 then Inl ZeroDivisionError
      else (case sample_loop fl message_queue cap (primary_box_of fl cap)
                   (secondary_box_of fl cap) (frame_skip_of cap) (total_frames_of cap) 0
                   ([], None) of
              Inl e \<Rightarrow> Inl e
            | Inr (results, last_valid_speaker) \<Rightarrow> Inr results))"

definition extract_speaker_labels ::
  "float_arith \<Rightarrow> video_capture \<Rightarrow> bool \<Rightarrow> py_error + observation list" where
  "extract_speaker_labels fl cap message_queue =
     (case raw_speaker_labels fl cap message_queue of
        Inl e \<Rightarrow> Inl e
      | Inr results \<Rightarrow> Inr (filter_noisy_speakers results))"

text \<open>
  The sampler in the words of the specification. The sampled frames are the frame indices
  of the video that are multiples of the frame skip, in ascending order. The name accepted
  at a frame is the text recognised in the primary crop or, when that yields no usable
  text, in the secondary crop, with the digit 0 read as the letter O, provided it has the
  shape of a name. The label of a sampled frame is its accepted name or, without one, the
  label of the sample before it; a frame without a label gives no observation. The
  observation of a labelled frame carries the frame index divided by the frame rate, minus
  the latency 2.5, floored at 0.
\<close>

definition spec_frame_indices :: "video_capture \<Rightarrow> int list" where
  "spec_frame_indices cap =
     (if cap_opened cap
      then filter (\<lambda>i. frame_skip_of cap dvd i) [0..int (length (cap_frames cap)) - 1]
      else [])"

definition spec_accepted_name :: "frame \<Rightarrow> crop_box \<Rightarrow> crop_box \<Rightarrow> pystr option" where
  "spec_accepted_name frame primary_box secondary_box =
     (let primary = try_ocr frame primary_box;
          text = (if primary = None \<or> primary = Some [] then try_ocr frame secondary_box
                  else primary)
      in case text of
           None \<Rightarrow> None
         | Some t \<Rightarrow>
             if t \<noteq> [] \<and> is_valid_name (replace_zero t) then Some (replace_zero t) else None)"

fun carry_forward :: "pystr option \<Rightarrow> pystr option list \<Rightarrow> pystr option list" where
  "carry_forward previous [] = []"
| "carry_forward previous (Some name # rest) = Some name # carry_forward (Some name) rest"
| "carry_forward previous (None # rest) = previous # carry_forward previous rest"

definition spec_observations ::
  "float_arith \<Rightarrow> video_capture \<Rightarrow> crop_box \<Rightarrow> crop_box \<Rightarrow> pystr option \<Rightarrow> int list
     \<Rightarrow> observation list" where
  "spec_observations fl cap primary_box secondary_box previous indices =
     concat (map (\<lambda>(frame_idx, label).
                    case label of
                      None \<Rightarrow> []
                    | Some speaker \<Rightarrow>
                        [(max 0 (fl_sub fl (fl_div fl (fl_of_int fl frame_idx) (cap_fps cap)) 2.5),
                          speaker)])
              (zip indices
                 (carry_forward previous
                    (map (\<lambda>frame_idx.
                            spec_accepted_name (cap_frames cap ! nat frame_idx)
                              primary_box secondary_box)
                       indices))))"

definition spec_timeline :: "float_arith \<Rightarrow> video_capture \<Rightarrow> observation list" where
  "spec_timeline fl cap =
     spec_observations fl cap (primary_box_of fl cap) (secondary_box_of fl cap) None
       (spec_frame_indices cap)"

text \<open>
  The run of the sampler raises at its progress report when a queue is given, the frame
  count is 0 and a first frame can be read.
\<close>

definition progress_fails :: "video_capture \<Rightarrow> bool \<Rightarrow> bool" where
  "progress_fails cap message_queue \<longleftrightarrow>
     message_queue \<and> total_frames_of cap = 0 \<and> cap_opened cap \<and> cap_frames cap \<noteq> []"

text \<open>
  A capture of five frames at one frame per second: the name badge reads \<open>Al Bo\<close> in
  the primary crop of the first, third and fifth frame, and nothing is read in the others.
\<close>

definition badge_frame :: frame where
  "badge_frame box = (if box = (0, 90, 20, 10) then [lit ''Al Bo''] else [])"

definition blank_frame :: frame where
  "blank_frame box = []"

definition five_frame_capture :: video_capture where
  "five_frame_capture =
     \<lparr>cap_opened = True, cap_fps = 1, cap_width = 100, cap_height = 100,
      cap_frame_count = 5,
      cap_frames = [badge_frame, blank_frame, badge_frame, blank_frame, badge_frame]\<rparr>"

subsection \<open>Settings, files and the summarization endpoint\<close>

text \<open>The settings dictionary: the keys of \<open>DEFAULT_SETTINGS\<close>, which every caller fills.\<close>

record settings =
  output_dir :: pystr
  transcript_file_name :: pystr
  summarize_transcript_setting :: bool
  summary_file_name :: pystr
  vllm_url :: pystr
  vllm_model_id :: pystr
  system_prompt :: pystr
  summary_prompt_format :: pystr

text \<open>
  JSON values, as \<open>response.json()\<close> returns them and as the \<open>json=\<close> argument of
  \<open>requests.post\<close> takes them. An object lists its keys once.
\<close>

datatype json =
    JNull
  | JBool bool
  | JNum real
  | JStr pystr
  | JArr "json list"
  | JObj "(pystr \<times> json) list"

text \<open>
  What a POST comes back with: no response at all (\<open>requests.post\<close> raises), or a
  response with its status code and its body, \<open>None\<close> when the body is not JSON.
\<close>

datatype http_outcome =
    NoResponse
  | Response int "json option"

record request =
  request_url :: pystr
  request_json :: json

text \<open>
  The surroundings of one run, which the source reaches through libraries:
  \<open>str.format\<close> on the prompt template (it raises on a template that it cannot fill),
  the endpoint, \<open>os.path.expanduser\<close>, and whether \<open>open(path, 'w')\<close> succeeds.
\<close>

record environment =
  env_format :: "pystr \<Rightarrow> pystr \<Rightarrow> py_error + pystr"
  env_endpoint :: "request \<Rightarrow> http_outcome"
  env_expanduser :: "pystr \<Rightarrow> pystr"
  env_can_open :: "pystr \<Rightarrow> bool"

text \<open>The state that a run changes: the files on disk and the requests posted so far.\<close>

record world =
  files :: "pystr \<rightharpoonup> pystr"
  exchanges :: "request list"

text \<open>Subscripts on a parsed JSON value: \<open>value[key]\<close> with a string key, and \<open>value[0]\<close>.\<close>

fun getitem_key :: "json \<Rightarrow> pystr \<Rightarrow> py_error + json" where
  "getitem_key (JObj items) key =
     (case map_of items key of None \<Rightarrow> Inl KeyError | Some v \<Rightarrow> Inr v)"
| "getitem_key _ key = Inl TypeError"

fun getitem_0 :: "json \<Rightarrow> py_error + json" where
  "getitem_0 (JArr []) = Inl IndexError"
| "getitem_0 (JArr (v # _)) = Inr v"
| "getitem_0 (JStr []) = Inl IndexError"
| "getitem_0 (JStr (c # _)) = Inr (JStr [c])"
| "getitem_0 (JObj items) = Inl KeyError"
| "getitem_0 _ = Inl TypeError"

definition bind :: "py_error + 'a \<Rightarrow> ('a \<Rightarrow> py_error + 'b) \<Rightarrow> py_error + 'b" where
  "bind r f = (case r of Inl e \<Rightarrow> Inl e | Inr v \<Rightarrow> f v)"

subsection \<open>Summarizer adapter: \<open>summarize_transcript\<close>\<close>

definition summary_request :: "settings \<Rightarrow> pystr \<Rightarrow> request" where
  "summary_request settings summary_prompt =
     \<lparr>request_url = vllm_url settings @ lit ''/v1/chat/completions'',
      request_json =
        JObj [(lit ''model'', JStr (vllm_model_id settings)),
              (lit ''messages'',
               JArr [JObj [(lit ''role'', JStr (lit ''system'')),
                           (lit ''content'', JStr (system_prompt settings))],
                     JObj [(lit ''role'', JStr (lit ''user'')),
                           (lit ''content'', JStr summary_prompt)]]),
              (lit ''stream'', JBool False)]\<rparr>"

text \<open>
  \<open>raise_for_status\<close> raises for the status codes from 400 up to 599;
  \<open>response.json()["choices"][0]["message"]["content"]\<close> raises when the body is not
  JSON or when a subscript fails.
\<close>

definition read_response :: "http_outcome \<Rightarrow> py_error + json" where
  "read_response outcome =
     (case outcome of
        NoResponse \<Rightarrow> Inl ConnectionError
      | Response status body \<Rightarrow>
          if 400 \<le> status \<and> status < 600 then Inl HTTPError
          else (case body of
                  None \<Rightarrow> Inl JSONDecodeError
                | Some parsed \<Rightarrow>
                    bind (getitem_key parsed (lit ''choices'')) (\<lambda>choices.
                    bind (getitem_0 choices) (\<lambda>choice.
                    bind (getitem_key choice (lit ''message'')) (\<lambda>message.
                    getitem_key message (lit ''content''))))))"

definition summarize_transcript ::
  "environment \<Rightarrow> pystr \<Rightarrow> settings \<Rightarrow> world \<Rightarrow> (py_error + json) \<times> world" where
  "summarize_transcript env transcript settings w =
     (case env_format env (summary_prompt_format settings) transcript of
        Inl e \<Rightarrow> (Inl e, w)
      | Inr summary_prompt \<Rightarrow>
          (let payload = summary_request settings summary_prompt;
               w' = w\<lparr>exchanges := exchanges w @ [payload]\<rparr>
           in (read_response (env_endpoint env payload), w')))"

text \<open>
  The text at the fixed path of the response, in the words of the specification: the
  \<open>content\<close> of the \<open>message\<close> of the first of the \<open>choices\<close>, when the body has one.
\<close>

definition content_at_path :: "json \<Rightarrow> json option" where
  "content_at_path body =
     (case body of
        JObj items \<Rightarrow>
          (case map_of items (lit ''choices'') of
             Some (JArr (JObj choice # _)) \<Rightarrow>
               (case map_of choice (lit ''message'') of
                  Some (JObj message) \<Rightarrow> map_of message (lit ''content'')
                | _ \<Rightarrow> None)
           | _ \<Rightarrow> None)
      | _ \<Rightarrow> None)"

subsection \<open>The workflow: \<open>transcribe_with_speakers\<close>\<close>

text \<open>\<open>os.path.join\<close> of two components, with \<open>/\<close> as the separator.\<close>

definition path_join :: "pystr \<Rightarrow> pystr \<Rightarrow> pystr" where
  "path_join a b =
     (if b \<noteq> [] \<and> hd b = 47 then b
      else if a = [] \<or> last a = 47 then a @ b
      else a @ [47] @ b)"

text \<open>The lines written to the transcript file, and the text sent to the summarizer.\<close>

definition render_transcript :: "transcript_line list \<Rightarrow> pystr" where
  "render_transcript transcript_lines =
     concat (map (\<lambda>(timestamp, speaker, text).
                    lit ''['' @ timestamp @ lit ''] '' @ speaker @ lit '': '' @ text @ [10])
                 transcript_lines)"

fun join_lines :: "pystr list \<Rightarrow> pystr" where
  "join_lines [] = []"
| "join_lines [x] = x"
| "join_lines (x # y # rest) = x @ [10] @ join_lines (y # rest)"

definition full_transcript :: "transcript_line list \<Rightarrow> pystr" where
  "full_transcript transcript_lines =
     join_lines (map (\<lambda>(timestamp, speaker, text). speaker @ lit '': '' @ text) transcript_lines)"

text \<open>
  \<open>with open(path, 'w') as f\<close> and the writes in its body: when the file cannot be
  opened nothing changes; once it is open its former content is gone.
\<close>

definition write_text :: "environment \<Rightarrow> world \<Rightarrow> pystr \<Rightarrow> pystr \<Rightarrow> py_error + world" where
  "write_text env w path text =
     (if env_can_open env path then Inr (w\<lparr>files := (files w)(path \<mapsto> text)\<rparr>)
      else Inl OSError)"

text \<open>\<open>f.write(summary)\<close> raises \<open>TypeError\<close>, on the file just emptied, when the summary is not a string.\<close>

definition write_summary :: "environment \<Rightarrow> world \<Rightarrow> pystr \<Rightarrow> json \<Rightarrow> (py_error + unit) \<times> world" where
  "write_summary env w path summary =
     (if env_can_open env path
      then (case summary of
              JStr text \<Rightarrow> (Inr (), w\<lparr>files := (files w)(path \<mapsto> text)\<rparr>)
            | _ \<Rightarrow> (Inl TypeError, w\<lparr>files := (files w)(path \<mapsto> [])\<rparr>))
      else (Inl OSError, w))"

text \<open>
  \<open>transcribe_with_speakers\<close>, on the capture and the speech segments that the two
  engines give for the video; \<open>message_queue\<close> tells whether a queue is given. The
  messages themselves change nothing else and are left out.
\<close>

definition transcribe_with_speakers ::
  "float_arith \<Rightarrow> environment \<Rightarrow> video_capture \<Rightarrow> transcript_segment list \<Rightarrow> settings
     \<Rightarrow> bool \<Rightarrow> world \<Rightarrow> (py_error + unit) \<times> world" where
  "transcribe_with_speakers fl env cap segments settings message_queue w =
     (case extract_speaker_labels fl cap message_queue of
        Inl e \<Rightarrow> (Inl e, w)
      | Inr speaker_timeline \<Rightarrow>
          (let words = flatten_words segments;
               intervals = extract_speech_intervals fl segments words
           in case assemble_transcript speaker_timeline intervals words of
                Inl e \<Rightarrow> (Inl e, w)
              | Inr transcript_lines \<Rightarrow>
                  (let output_dir_path = env_expanduser env (output_dir settings);
                       transcript_path = path_join output_dir_path (transcript_file_name settings)
                   in case write_text env w transcript_path (render_transcript transcript_lines) of
                        Inl e \<Rightarrow> (Inl e, w)
                      | Inr w1 \<Rightarrow>
                          if \<not> summarize_transcript_setting settings then (Inr (), w1)
                          else (case summarize_transcript env (full_transcript transcript_lines)
                                       settings w1 of
                                  (Inl e, w2) \<Rightarrow> (Inl e, w2)
                                | (Inr summary, w2) \<Rightarrow>
                                    write_summary env w2
                                      (path_join output_dir_path (summary_file_name settings))
                                      summary))))"

text \<open>
  A run for the examples: a template filled by appending the transcript, a home directory
  that expands to itself, files that open, and the default file names. The endpoint of
  \<open>failing_env\<close> answers 500; the endpoint of \<open>empty_body_env\<close> answers 200 with the
  empty JSON object. \<open>blank_capture\<close> shows no name at all.
\<close>

definition example_settings :: settings where
  "example_settings =
     \<lparr>output_dir = lit ''out'', transcript_file_name = lit ''transcript.txt'',
      summarize_transcript_setting = True, summary_file_name = lit ''summary.txt'',
      vllm_url = lit ''http://localhost:8000'', vllm_model_id = lit ''granite32-8b'',
      system_prompt = lit ''You are an expert meeting assistant.'',
      summary_prompt_format = lit ''TRANSCRIPT ''\<rparr>"

definition failing_env :: environment where
  "failing_env =
     \<lparr>env_format = (\<lambda>template transcript. Inr (template @ transcript)),
      env_endpoint = (\<lambda>request. Response 500 None),
      env_expanduser = (\<lambda>path. path),
      env_can_open = (\<lambda>path. True)\<rparr>"

definition empty_body_env :: environment where
  "empty_body_env =
     \<lparr>env_format = (\<lambda>template transcript. Inr (template @ transcript)),
      env_endpoint = (\<lambda>request. Response 200 (Some (JObj []))),
      env_expanduser = (\<lambda>path. path),
      env_can_open = (\<lambda>path. True)\<rparr>"

definition empty_world :: world where
  "empty_world = \<lparr>files = Map.empty, exchanges = []\<rparr>"

definition blank_capture :: video_capture where
  "blank_capture =
     \<lparr>cap_opened = True, cap_fps = 1, cap_width = 100, cap_height = 100,
      cap_frame_count = 2, cap_frames = [blank_frame, blank_frame]\<rparr>"

text \<open>The path of the transcript file of a run.\<close>

definition transcript_path :: "environment \<Rightarrow> settings \<Rightarrow> pystr" where
  "transcript_path env settings =
     path_join (env_expanduser env (output_dir settings)) (transcript_file_name settings)"

section \<open>Denoiser properties\<close>

lemma filter_noisy_loop_eq:
  assumes "\<forall>(i, r) \<in> set ps. i < length raw \<and> r = raw ! i"
  shows "filter_noisy_loop raw ps acc = acc @ map snd (filter (\<lambda>(i, r). \<not> flicker raw i) ps)"
  using assms
proof (induction ps arbitrary: acc)
  case Nil
  then show ?case by simp
next
  case (Cons p ps)
  obtain i r where p: "p = (i, r)" by (cases p)
  from Cons.prems p have i: "i < length raw" and r: "r = raw ! i" by auto
  from Cons.prems have rest: "\<forall>(i, r) \<in> set ps. i < length raw \<and> r = raw ! i" by simp
  note IH = Cons.IH [OF rest]
  show ?case
  proof (cases "i = 0 \<or> int i = int (length raw) - 1")
    case True
    then have "\<not> flicker raw i" using i by (auto simp: flicker_def)
    with True show ?thesis by (simp add: p IH)
  next
    case False
    then have "0 < i" "i + 1 < length raw" using i by auto
    then have "flicker raw i \<longleftrightarrow>
        snd (raw ! i) \<noteq> snd (raw ! (i - 1)) \<and> snd (raw ! i) \<noteq> snd (raw ! (i + 1))"
      by (simp add: flicker_def)
    with False show ?thesis by (simp add: p r IH Let_def)
  qed
qed

lemma enumerate_list_wf:
  "\<forall>(i, r) \<in> set (enumerate_list raw). i < length raw \<and> r = raw ! i"
  by (auto simp: enumerate_list_def set_zip)

lemma filter_noisy_speakers_filter:
  "filter_noisy_speakers raw = map ((!) raw) (filter (\<lambda>i. \<not> flicker raw i) [0..<length raw])"
proof -
  have "filter_noisy_speakers raw =
      map snd (filter (\<lambda>(i, r). \<not> flicker raw i) (zip [0..<length raw] raw))"
    by (simp add: filter_noisy_speakers_def filter_noisy_loop_eq [OF enumerate_list_wf]
        enumerate_list_def [symmetric])
  also have "zip [0..<length raw] raw = map (\<lambda>i. (i, raw ! i)) [0..<length raw]"
    by (rule nth_equalityI) auto
  also have "map snd (filter (\<lambda>(i, r). \<not> flicker raw i) (map (\<lambda>i. (i, raw ! i)) [0..<length raw]))
      = map ((!) raw) (filter (\<lambda>i. \<not> flicker raw i) [0..<length raw])"
    by (simp add: filter_map comp_def)
  finally show ?thesis .
qed

lemma filter_noisy_speakers_nths:
  "filter_noisy_speakers raw = nths raw {i. \<not> flicker raw i}"
proof -
  have "nths raw {i. \<not> flicker raw i} =
      map fst (filter (\<lambda>p. \<not> flicker raw (snd p)) (map (\<lambda>i. (raw ! i, i)) [0..<length raw]))"
  proof -
    have "zip raw [0..<length raw] = map (\<lambda>i. (raw ! i, i)) [0..<length raw]"
      by (rule nth_equalityI) auto
    then show ?thesis by (simp add: nths_def)
  qed
  also have "\<dots> = map ((!) raw) (filter (\<lambda>i. \<not> flicker raw i) [0..<length raw])"
    by (simp add: filter_map comp_def)
  finally show ?thesis by (simp add: filter_noisy_speakers_filter)
qed

lemma filter_noisy_speakers_hd:
  assumes "raw \<noteq> []"
  shows "hd (filter_noisy_speakers raw) = hd raw"
proof -
  from assms have n: "0 < length raw" by simp
  have k: "\<not> flicker raw 0" by (simp add: flicker_def)
  from n have "[0..<length raw] = 0 # [Suc 0..<length raw]" by (simp add: upt_conv_Cons)
  then have "filter (\<lambda>i. \<not> flicker raw i) [0..<length raw]
      = 0 # filter (\<lambda>i. \<not> flicker raw i) [Suc 0..<length raw]"
    using k by simp
  then show ?thesis using assms by (simp add: filter_noisy_speakers_filter hd_conv_nth)
qed

lemma filter_noisy_speakers_last:
  assumes "raw \<noteq> []"
  shows "last (filter_noisy_speakers raw) = last raw"
proof -
  from assms obtain m where m: "length raw = Suc m" by (cases raw) auto
  have k: "\<not> flicker raw m" by (simp add: flicker_def m)
  have "filter (\<lambda>i. \<not> flicker raw i) [0..<length raw]
      = filter (\<lambda>i. \<not> flicker raw i) [0..<m] @ [m]"
    using k by (simp add: m)
  then show ?thesis using assms m by (simp add: filter_noisy_speakers_filter last_conv_nth)
qed

lemma filter_noisy_speakers_subseq: "subseq (filter_noisy_speakers raw) raw"
  unfolding subseq_conv_nths filter_noisy_speakers_nths by blast

text \<open>
  C4. The cleaned timeline is the raw timeline with exactly the flicker positions removed
  (positions that are interior and whose label differs from the label just before and from
  the label just after, both read in the raw timeline); for a non-empty raw timeline the
  first and the last element are the raw ones; the result is a subsequence of the input.
\<close>

theorem filter_noisy_speakers_spec:
  "filter_noisy_speakers raw = nths raw {i. \<not> flicker raw i}
   \<and> (raw \<noteq> [] \<longrightarrow>
        hd (filter_noisy_speakers raw) = hd raw \<and> last (filter_noisy_speakers raw) = last raw)
   \<and> subseq (filter_noisy_speakers raw) raw"
  using filter_noisy_speakers_nths filter_noisy_speakers_hd filter_noisy_speakers_last
    filter_noisy_speakers_subseq
  by blast

theorem filter_noisy_speakers_spec_witness:
  "[(0, [65]), (1, [66]), (2, [65])] \<noteq> ([] :: observation list)
   \<and> filter_noisy_speakers [(0, [65]), (1, [66]), (2, [65])] = [(0, [65]), (2, [65])]
   \<and> hd (filter_noisy_speakers [(0, [65]), (1, [66]), (2, [65])]) = (0, [65])
   \<and> last (filter_noisy_speakers [(0, [65]), (1, [66]), (2, [65])]) = (2, [65])"
proof -
  let ?raw = "[(0, [65]), (1, [66]), (2, [65])] :: observation list"
  have ne: "?raw \<noteq> []" by simp
  have ends: "hd (filter_noisy_speakers ?raw) = hd ?raw
      \<and> last (filter_noisy_speakers ?raw) = last ?raw"
    using filter_noisy_speakers_spec [of ?raw] ne by blast
  have run: "filter_noisy_speakers ?raw = [(0, [65]), (2, [65])]"
    by (simp add: filter_noisy_speakers_def enumerate_list_def upt_rec)
  from ne ends run show ?thesis by simp
qed

section \<open>Per-word speaker lookup properties\<close>

lemma last_filter_position:
  assumes "filter P xs \<noteq> []"
  shows "\<exists>i<length xs. P (xs ! i) \<and> (\<forall>j. i < j \<and> j < length xs \<longrightarrow> \<not> P (xs ! j))
           \<and> last (filter P xs) = xs ! i"
  using assms
proof (induction xs rule: rev_induct)
  case Nil
  then show ?case by simp
next
  case (snoc x xs)
  show ?case
  proof (cases "P x")
    case True
    then have "P ((xs @ [x]) ! length xs)
        \<and> (\<forall>j. length xs < j \<and> j < length (xs @ [x]) \<longrightarrow> \<not> P ((xs @ [x]) ! j))
        \<and> last (filter P (xs @ [x])) = (xs @ [x]) ! length xs"
      by auto
    then show ?thesis
      by (intro exI [of _ "length xs"]) simp
  next
    case False
    with snoc.prems have "filter P xs \<noteq> []" by simp
    from snoc.IH [OF this] obtain i where i: "i < length xs" "P (xs ! i)"
      "\<forall>j. i < j \<and> j < length xs \<longrightarrow> \<not> P (xs ! j)" "last (filter P xs) = xs ! i"
      by blast
    have later: "\<forall>j. i < j \<and> j < length (xs @ [x]) \<longrightarrow> \<not> P ((xs @ [x]) ! j)"
    proof (intro allI impI)
      fix j assume j: "i < j \<and> j < length (xs @ [x])"
      show "\<not> P ((xs @ [x]) ! j)"
      proof (cases "j < length xs")
        case True
        with i(3) j show ?thesis by (simp add: nth_append)
      next
        case False
        with j have "j = length xs" by simp
        with \<open>\<not> P x\<close> show ?thesis by simp
      qed
    qed
    from i False have "P ((xs @ [x]) ! i)" "last (filter P (xs @ [x])) = (xs @ [x]) ! i"
      by (simp_all add: nth_append)
    with later i(1) show ?thesis
      by (intro exI [of _ i]) simp
  qed
qed

lemma sorted_prefix_le:
  assumes "sorted (map fst tline)" and "i < length tline" and "(s :: observation) \<in> set tline"
    and "fst (tline ! i) \<le> t" and "\<forall>j. i < j \<and> j < length tline \<longrightarrow> \<not> fst (tline ! j) \<le> t"
    and "fst s \<le> t"
  shows "fst s \<le> fst (tline ! i)"
proof -
  from assms(3) obtain k where k: "k < length tline" "s = tline ! k"
    by (auto simp: in_set_conv_nth)
  have "k \<le> i"
  proof (rule ccontr)
    assume "\<not> k \<le> i"
    then have "i < k" by simp
    with assms(5) k assms(6) show False by blast
  qed
  with assms(1,2) k have "map fst tline ! k \<le> map fst tline ! i"
    by (intro sorted_nth_mono) simp_all
  with k assms(2) show ?thesis by simp
qed

text \<open>
  C7. For a non-empty cleaned timeline: when some observation has a timestamp at or before
  the word's start, the attributed speaker is the label of the last such observation of
  the timeline (no later position qualifies, and on a timeline ordered by timestamp no
  qualifying observation has a greater timestamp); when none has, it is the label of the
  first observation.
\<close>

theorem get_current_speaker_spec:
  assumes "speaker_timeline \<noteq> []"
  shows "if \<exists>s \<in> set speaker_timeline. fst s \<le> current_timestamp
         then \<exists>i<length speaker_timeline.
                fst (speaker_timeline ! i) \<le> current_timestamp
              \<and> (\<forall>j. i < j \<and> j < length speaker_timeline
                     \<longrightarrow> \<not> fst (speaker_timeline ! j) \<le> current_timestamp)
              \<and> (sorted (map fst speaker_timeline)
                     \<longrightarrow> (\<forall>s \<in> set speaker_timeline.
                            fst s \<le> current_timestamp \<longrightarrow> fst s \<le> fst (speaker_timeline ! i)))
              \<and> get_current_speaker current_timestamp intervals speaker_timeline
                   = Inr (snd (speaker_timeline ! i))
         else get_current_speaker current_timestamp intervals speaker_timeline
                = Inr (snd (hd speaker_timeline))"
proof (cases "\<exists>s \<in> set speaker_timeline. fst s \<le> current_timestamp")
  case True
  then have ne: "filter (\<lambda>s. fst s \<le> current_timestamp) speaker_timeline \<noteq> []"
    by (simp add: filter_empty_conv)
  from last_filter_position [OF ne] obtain i where i: "i < length speaker_timeline"
    "fst (speaker_timeline ! i) \<le> current_timestamp"
    "\<forall>j. i < j \<and> j < length speaker_timeline \<longrightarrow> \<not> fst (speaker_timeline ! j) \<le> current_timestamp"
    "last (filter (\<lambda>s. fst s \<le> current_timestamp) speaker_timeline) = speaker_timeline ! i"
    by blast
  have mx: "sorted (map fst speaker_timeline)
      \<longrightarrow> (\<forall>s \<in> set speaker_timeline. fst s \<le> current_timestamp \<longrightarrow> fst s \<le> fst (speaker_timeline ! i))"
    using sorted_prefix_le [of speaker_timeline i _ current_timestamp] i by blast
  have res: "get_current_speaker current_timestamp intervals speaker_timeline
      = Inr (snd (speaker_timeline ! i))"
    using ne i(4) by (simp add: get_current_speaker_def)
  from i(1,2,3) mx res have "\<exists>i<length speaker_timeline.
                fst (speaker_timeline ! i) \<le> current_timestamp
              \<and> (\<forall>j. i < j \<and> j < length speaker_timeline
                     \<longrightarrow> \<not> fst (speaker_timeline ! j) \<le> current_timestamp)
              \<and> (sorted (map fst speaker_timeline)
                     \<longrightarrow> (\<forall>s \<in> set speaker_timeline.
                            fst s \<le> current_timestamp \<longrightarrow> fst s \<le> fst (speaker_timeline ! i)))
              \<and> get_current_speaker current_timestamp intervals speaker_timeline
                   = Inr (snd (speaker_timeline ! i))"
    by blast
  with True show ?thesis by simp
next
  case False
  then have "filter (\<lambda>s. fst s \<le> current_timestamp) speaker_timeline = []"
    by (simp add: filter_empty_conv)
  with assms have "get_current_speaker current_timestamp intervals speaker_timeline
      = Inr (snd (hd speaker_timeline))"
    by (cases speaker_timeline) (simp_all add: get_current_speaker_def)
  with False show ?thesis by simp
qed

theorem get_current_speaker_spec_witness:
  "[(0, [65]), (5, [66])] \<noteq> ([] :: observation list)
   \<and> (\<exists>s \<in> set ([(0, [65]), (5, [66])] :: observation list). fst s \<le> 5)
   \<and> sorted (map fst ([(0, [65]), (5, [66])] :: observation list))
   \<and> get_current_speaker 5 [] [(0, [65]), (5, [66])] = Inr [66]
   \<and> \<not> (\<exists>s \<in> set ([(0, [65]), (5, [66])] :: observation list). fst s \<le> - 1)
   \<and> get_current_speaker (- 1) [] [(0, [65]), (5, [66])] = Inr [65]"
proof -
  let ?tl = "[(0, [65]), (5, [66])] :: observation list"
  have ne: "?tl \<noteq> []" by simp
  have some: "\<exists>s \<in> set ?tl. fst s \<le> 5" by simp
  have none: "\<not> (\<exists>s \<in> set ?tl. fst s \<le> - 1)" by simp
  have srt: "sorted (map fst ?tl)" by simp
  from get_current_speaker_spec [OF ne, of 5 "[]"] some
  obtain i where i: "i < length ?tl"
    "\<forall>j. i < j \<and> j < length ?tl \<longrightarrow> \<not> fst (?tl ! j) \<le> 5"
    "get_current_speaker 5 [] ?tl = Inr (snd (?tl ! i))"
    by auto
  have "i = 1"
  proof (rule ccontr)
    assume "i \<noteq> 1"
    with i(1) have "i = 0" by simp
    with i(2) have "0 < (1::nat) \<and> 1 < length ?tl \<longrightarrow> \<not> fst (?tl ! 1) \<le> 5" by blast
    then show False by simp
  qed
  with i(3) have a: "get_current_speaker 5 [] ?tl = Inr [66]" by simp
  from get_current_speaker_spec [OF ne, of "- 1" "[]"] none
  have b: "get_current_speaker (- 1) [] ?tl = Inr [65]" by simp
  from ne some srt a none b show ?thesis by blast
qed

section \<open>Segmenter properties\<close>

lemma extract_speech_intervals_eval:
  "extract_speech_intervals fl segments words =
     (let all_switch_points =
            sort (remdups (concat (map (\<lambda>segment. [segment_start segment, segment_end segment])
                                     segments)))
      in map (\<lambda>i. (all_switch_points ! i, all_switch_points ! (i + 1)))
           [0..<length all_switch_points - 1])"
  by (simp add: extract_speech_intervals_def sorted_list_of_set_sort_remdups Let_def
      split: prod.split)

lemma spec_switch_points_eval:
  "spec_switch_points segments words =
     sort (remdups (spec_silence_points words
        @ concat (map (\<lambda>segment. [segment_start segment, segment_end segment]) segments)))"
  unfolding spec_switch_points_def by (rule sorted_list_of_set_sort_remdups)

lemma extract_speech_intervals_pairs:
  "extract_speech_intervals fl segments words =
     consecutive_pairs (sorted_list_of_set
       (set (concat (map (\<lambda>segment. [segment_start segment, segment_end segment]) segments))))"
proof -
  have pairs: "map (\<lambda>i. (xs ! i, xs ! (i + 1))) [0..<length xs - 1] = zip xs (tl xs)"
    for xs :: "real list"
    by (rule nth_equalityI) (auto simp: nth_tl)
  show ?thesis
    by (cases "silence_scan fl words ([], None)")
      (simp only: extract_speech_intervals_def consecutive_pairs_def Let_def prod.case pairs)
qed

lemma extract_speech_intervals_ignores_words:
  "extract_speech_intervals fl segments words = extract_speech_intervals fl segments words'"
  by (simp add: extract_speech_intervals_pairs)

lemma consecutive_pairs_nth:
  assumes "i < length (consecutive_pairs xs)"
  shows "consecutive_pairs xs ! i = (xs ! i, xs ! Suc i)" and "Suc i < length xs"
  using assms by (simp_all add: consecutive_pairs_def nth_tl)

lemma extract_speech_intervals_ordered:
  assumes "i < j" and "j < length (extract_speech_intervals fl segments words)"
  shows "fst (extract_speech_intervals fl segments words ! i)
           < snd (extract_speech_intervals fl segments words ! i)
       \<and> snd (extract_speech_intervals fl segments words ! i)
           \<le> fst (extract_speech_intervals fl segments words ! j)
       \<and> fst (extract_speech_intervals fl segments words ! i)
           < fst (extract_speech_intervals fl segments words ! j)"
proof -
  define pts where "pts = sorted_list_of_set
    (set (concat (map (\<lambda>segment. [segment_start segment, segment_end segment]) segments)))"
  have ivs: "extract_speech_intervals fl segments words = consecutive_pairs pts"
    by (simp add: extract_speech_intervals_pairs pts_def)
  have strict: "sorted_wrt (<) pts"
    by (simp add: pts_def)
  from assms ivs have j: "j < length (consecutive_pairs pts)" by simp
  with assms(1) have i: "i < length (consecutive_pairs pts)" by simp
  note ni = consecutive_pairs_nth [OF i] and nj = consecutive_pairs_nth [OF j]
  have a: "pts ! i < pts ! Suc i"
    using strict ni(2) by (simp add: sorted_wrt_nth_less)
  have b: "pts ! Suc i \<le> pts ! j"
  proof (cases "Suc i = j")
    case True
    then show ?thesis by simp
  next
    case False
    with assms(1) have "Suc i < j" by simp
    moreover from nj(2) have "j < length pts" by simp
    ultimately have "pts ! Suc i < pts ! j"
      using strict by (simp add: sorted_wrt_nth_less)
    then show ?thesis by simp
  qed
  from a b show ?thesis by (simp add: ivs ni(1) nj(1))
qed

text \<open>
  C1. On \<open>pause_segments\<close> the word scan finds the switch points 0 and 3 and the last end
  10 (the times of these words and their differences are floats, so the scan is the one of
  \<open>exact_arith\<close>), and the pooled list of the specification is 0, 3, 10 with the two
  intervals (0, 3) and (3, 10); the source returns the single interval (0, 10), built
  from the segment boundaries alone, whatever the arithmetic.
\<close>

theorem extract_speech_intervals_segment_points_only:
  "silence_scan exact_arith (flatten_words pause_segments) ([], None)
     = ([Some 0, Some 3], Some 10)
   \<and> spec_switch_points pause_segments (flatten_words pause_segments) = [0, 3, 10]
   \<and> spec_speech_intervals pause_segments (flatten_words pause_segments) = [(0, 3), (3, 10)]
   \<and> extract_speech_intervals fl pause_segments (flatten_words pause_segments) = [(0, 10)]"
  by (simp add: extract_speech_intervals_eval spec_speech_intervals_def spec_switch_points_eval
      spec_silence_points_def consecutive_pairs_def pause_segments_def flatten_words_def
      silence_threshold_def exact_arith_def upt_rec)

text \<open>
  C5. On \<open>early_word_segments\<close> the source returns the single interval (1, 2), which does
  not hold the start 0.4 of the first word; the pooled intervals of the specification
  hold it.
\<close>

theorem extract_speech_intervals_orphan_word:
  "extract_speech_intervals fl early_word_segments (flatten_words early_word_segments) = [(1, 2)]
   \<and> word_start (hd (flatten_words early_word_segments)) = 0.4
   \<and> \<not> covered (extract_speech_intervals fl early_word_segments
                   (flatten_words early_word_segments)) 0.4
   \<and> covered (spec_speech_intervals early_word_segments
               (flatten_words early_word_segments)) 0.4"
  by (simp add: extract_speech_intervals_eval spec_speech_intervals_def spec_switch_points_eval
      spec_silence_points_def consecutive_pairs_def early_word_segments_def flatten_words_def
      covered_def upt_rec)

section \<open>Interval speaker resolver properties\<close>

lemma assign_loop_other:
  "interval \<notin> set intervals \<Longrightarrow>
     assign_loop list_of_set speaker_timeline intervals m interval = m interval"
  by (induction intervals arbitrary: m) (auto simp: Let_def)

lemma assign_loop_lookup:
  "interval \<in> set intervals \<Longrightarrow>
     assign_loop list_of_set speaker_timeline intervals m interval
       = Some (get_majority_speaker (interval_speakers list_of_set speaker_timeline interval))"
proof (induction intervals arbitrary: m)
  case Nil
  then show ?case by simp
next
  case (Cons iv intervals)
  show ?case
  proof (cases "interval \<in> set intervals")
    case True
    then show ?thesis by (simp add: Cons.IH Let_def)
  next
    case False
    with Cons.prems have "iv = interval" by simp
    with False show ?thesis by (simp add: assign_loop_other Let_def)
  qed
qed

lemma labels_in_range_eval:
  "labels_in_range speaker_timeline interval
     = set (map snd (filter (\<lambda>s. fst interval \<le> fst s \<and> fst s \<le> snd interval)
                       speaker_timeline))"
  by (force simp: labels_in_range_def)

lemma interval_speakers_set:
  assumes "set_conversion list_of_set"
  shows "set (interval_speakers list_of_set speaker_timeline interval)
           = labels_in_range speaker_timeline interval"
    and "distinct (interval_speakers list_of_set speaker_timeline interval)"
  using assms by (simp_all add: set_conversion_def interval_speakers_def labels_in_range_eval)

lemma distinct_singleton:
  assumes "distinct xs" and "set xs = {x}"
  shows "xs = [x]"
proof (cases xs)
  case Nil
  with assms(2) show ?thesis by simp
next
  case (Cons y ys)
  with assms(2) have y: "y = x" by auto
  have "ys = []"
  proof (cases ys)
    case Nil
    then show ?thesis .
  next
    case (Cons z zs)
    with \<open>xs = y # ys\<close> assms(2) have "z = x" by auto
    with Cons \<open>xs = y # ys\<close> y assms(1) show ?thesis by simp
  qed
  with Cons y show ?thesis by simp
qed

text \<open>
  C6. For an interval of the list and any conversion of a set to a list, the speakers
  collected for the interval are, without repetition, the labels whose observation
  timestamp lies in the closed span of the interval; when there is none the interval maps
  to \<open>None\<close>, and when there is exactly one label the interval maps to it.
\<close>

theorem assign_speakers_to_intervals_spec:
  assumes "set_conversion list_of_set" and "interval \<in> set intervals"
  shows "set (interval_speakers list_of_set speaker_timeline interval)
           = labels_in_range speaker_timeline interval
       \<and> distinct (interval_speakers list_of_set speaker_timeline interval)
       \<and> assign_speakers_to_intervals list_of_set intervals speaker_timeline interval
           = Some (get_majority_speaker (interval_speakers list_of_set speaker_timeline interval))
       \<and> (labels_in_range speaker_timeline interval = {} \<longrightarrow>
            assign_speakers_to_intervals list_of_set intervals speaker_timeline interval
              = Some None)
       \<and> (\<forall>label. labels_in_range speaker_timeline interval = {label} \<longrightarrow>
            assign_speakers_to_intervals list_of_set intervals speaker_timeline interval
              = Some (Some label))"
proof -
  let ?speakers = "interval_speakers list_of_set speaker_timeline interval"
  note sp = interval_speakers_set [OF assms(1), of speaker_timeline interval]
  have look: "assign_speakers_to_intervals list_of_set intervals speaker_timeline interval
      = Some (get_majority_speaker ?speakers)"
    using assms(2) by (simp add: assign_speakers_to_intervals_def assign_loop_lookup)
  have none: "get_majority_speaker ?speakers = None"
    if "labels_in_range speaker_timeline interval = {}"
  proof -
    from that sp(1) have "?speakers = []" by simp
    then show ?thesis by (simp add: get_majority_speaker_def)
  qed
  have one: "get_majority_speaker ?speakers = Some label"
    if "labels_in_range speaker_timeline interval = {label}" for label
  proof -
    from that sp have "?speakers = [label]" by (simp add: distinct_singleton)
    then show ?thesis by (simp add: get_majority_speaker_def)
  qed
  from sp look none one show ?thesis by simp
qed

theorem assign_speakers_to_intervals_spec_witness:
  "set_conversion remdups
   \<and> (0, 1) \<in> set ([(0, 1), (1, 5)] :: interval list)
   \<and> (1, 5) \<in> set ([(0, 1), (1, 5)] :: interval list)
   \<and> labels_in_range [(0, [65]), (0.5, [65]), (7, [66])] (0, 1) = {[65]}
   \<and> labels_in_range [(0, [65]), (0.5, [65]), (7, [66])] (1, 5) = {}
   \<and> assign_speakers_to_intervals remdups [(0, 1), (1, 5)]
        [(0, [65]), (0.5, [65]), (7, [66])] (0, 1) = Some (Some [65])
   \<and> assign_speakers_to_intervals remdups [(0, 1), (1, 5)]
        [(0, [65]), (0.5, [65]), (7, [66])] (1, 5) = Some None"
proof -
  let ?tl = "[(0, [65]), (0.5, [65]), (7, [66])] :: observation list"
  let ?ivs = "[(0, 1), (1, 5)] :: interval list"
  have conv: "set_conversion remdups" by (simp add: set_conversion_def)
  have m1: "(0, 1) \<in> set ?ivs" and m2: "(1, 5) \<in> set ?ivs" by simp_all
  have l1: "labels_in_range ?tl (0, 1) = {[65]}" by (simp add: labels_in_range_eval)
  have l2: "labels_in_range ?tl (1, 5) = {}" by (simp add: labels_in_range_eval)
  note spec1 = assign_speakers_to_intervals_spec [OF conv m1, of ?tl]
  note spec2 = assign_speakers_to_intervals_spec [OF conv m2, of ?tl]
  have r1: "assign_speakers_to_intervals remdups ?ivs ?tl (0, 1) = Some (Some [65])"
    by (rule spec1 [THEN conjunct2, THEN conjunct2, THEN conjunct2, THEN conjunct2,
          rule_format, OF l1])
  have r2: "assign_speakers_to_intervals remdups ?ivs ?tl (1, 5) = Some None"
    by (rule spec2 [THEN conjunct2, THEN conjunct2, THEN conjunct2, THEN conjunct1,
          rule_format, OF l2])
  show ?thesis by (intro conjI conv m1 m2 l1 l2 r1 r2)
qed

section \<open>Transcript assembler properties\<close>

lemma filter_dropWhile_space:
  "filter (\<lambda>c. \<not> is_space c) (dropWhile is_space s) = filter (\<lambda>c. \<not> is_space c) s"
  by (induction s) simp_all

lemma filter_py_strip:
  "filter (\<lambda>c. \<not> is_space c) (py_strip s) = filter (\<lambda>c. \<not> is_space c) s"
proof -
  have "filter (\<lambda>c. \<not> is_space c) (py_strip s)
      = rev (filter (\<lambda>c. \<not> is_space c) (dropWhile is_space (rev (dropWhile is_space s))))"
    by (simp add: py_strip_def rev_filter)
  also have "\<dots> = rev (filter (\<lambda>c. \<not> is_space c) (rev (dropWhile is_space s)))"
    by (simp only: filter_dropWhile_space)
  also have "\<dots> = filter (\<lambda>c. \<not> is_space c) (dropWhile is_space s)"
    by (simp add: rev_filter)
  finally show ?thesis by (simp only: filter_dropWhile_space)
qed

lemma seconds_to_hms_defined:
  "hms_defined t \<Longrightarrow> \<exists>timestamp. seconds_to_hms t = Inr timestamp"
  by (simp add: hms_defined_def seconds_to_hms_def timedelta_def Let_def)

lemma get_current_speaker_total:
  "speaker_timeline \<noteq> [] \<Longrightarrow> \<exists>speaker. get_current_speaker t intervals speaker_timeline = Inr speaker"
  by (cases speaker_timeline) (simp_all add: get_current_speaker_def Let_def)

lemma words_text_Cons: "words_text (w # ws) = word_word w @ words_text ws"
  by (simp add: words_text_def)

lemma words_text_Nil: "words_text [] = []"
  by (simp add: words_text_def)

lemma assemble_loop_pending:
  assumes "speaker_timeline \<noteq> []"
    and "\<forall>w \<in> set ws. hms_defined (word_start w)"
    and "hms_defined t"
  shows "\<exists>lines' runs.
           after_loop (assemble_loop speaker_timeline intervals ws
                         (transcript_lines, Some sp, current_text, Some t))
             = Inr (transcript_lines @ lines')
         \<and> concat runs = ws \<and> runs \<noteq> [] \<and> [] \<notin> set (tl runs)
         \<and> map line_text lines'
             = py_strip (current_text @ words_text (hd runs))
               # map (\<lambda>r. py_strip (words_text r)) (tl runs)"
  using assms(2,3)
proof (induction ws arbitrary: transcript_lines sp current_text t)
  case Nil
  from seconds_to_hms_defined [OF Nil.prems(2)] obtain ts where ts: "seconds_to_hms t = Inr ts"
    by blast
  have "after_loop (assemble_loop speaker_timeline intervals []
          (transcript_lines, Some sp, current_text, Some t))
      = Inr (transcript_lines @ [(ts, sp, py_strip current_text)])"
    by (simp add: after_loop_def append_line_def ts)
  moreover have "concat [[]] = ([] :: timed_word list)" "[[]] \<noteq> ([] :: timed_word list list)"
    "[] \<notin> set (tl [[] :: timed_word list])"
    "map line_text [(ts, sp, py_strip current_text)]
       = py_strip (current_text @ words_text (hd [[]]))
         # map (\<lambda>r. py_strip (words_text r)) (tl [[]])"
    by (simp_all add: line_text_def words_text_Nil)
  ultimately show ?case
    by (intro exI [of _ "[(ts, sp, py_strip current_text)]"] exI [of _ "[[]]"]) blast
next
  case (Cons w ws)
  from Cons.prems have ws_ok: "\<forall>w \<in> set ws. hms_defined (word_start w)"
    and w_ok: "hms_defined (word_start w)" by simp_all
  from get_current_speaker_total [OF assms(1)] obtain speaker
    where speaker: "get_current_speaker (word_start w) intervals speaker_timeline = Inr speaker"
    by blast
  show ?case
  proof (cases "speaker = sp")
    case True
    from Cons.IH [OF ws_ok Cons.prems(2), of transcript_lines sp "current_text @ word_word w"]
    obtain lines' runs where IH:
      "after_loop (assemble_loop speaker_timeline intervals ws
         (transcript_lines, Some sp, current_text @ word_word w, Some t))
         = Inr (transcript_lines @ lines')"
      "concat runs = ws" "runs \<noteq> []" "[] \<notin> set (tl runs)"
      "map line_text lines'
         = py_strip ((current_text @ word_word w) @ words_text (hd runs))
           # map (\<lambda>r. py_strip (words_text r)) (tl runs)"
      by auto
    let ?runs = "(w # hd runs) # tl runs"
    have step: "after_loop (assemble_loop speaker_timeline intervals (w # ws)
         (transcript_lines, Some sp, current_text, Some t)) = Inr (transcript_lines @ lines')"
      using True speaker IH(1) by simp
    from IH(2,3) have c: "concat ?runs = w # ws" by (cases runs) simp_all
    have "?runs \<noteq> []" "[] \<notin> set (tl ?runs)" using IH(4) by simp_all
    moreover have "map line_text lines'
         = py_strip (current_text @ words_text (hd ?runs))
           # map (\<lambda>r. py_strip (words_text r)) (tl ?runs)"
      using IH(5) by (simp add: words_text_Cons)
    ultimately show ?thesis using step c
      by (intro exI [of _ lines'] exI [of _ ?runs]) blast
  next
    case False
    from seconds_to_hms_defined [OF Cons.prems(2)] obtain ts where ts: "seconds_to_hms t = Inr ts"
      by blast
    let ?line = "(ts, sp, py_strip current_text)"
    from Cons.IH [OF ws_ok w_ok, of "transcript_lines @ [?line]" speaker "word_word w"]
    obtain lines' runs where IH:
      "after_loop (assemble_loop speaker_timeline intervals ws
         (transcript_lines @ [?line], Some speaker, word_word w, Some (word_start w)))
         = Inr ((transcript_lines @ [?line]) @ lines')"
      "concat runs = ws" "runs \<noteq> []" "[] \<notin> set (tl runs)"
      "map line_text lines'
         = py_strip (word_word w @ words_text (hd runs))
           # map (\<lambda>r. py_strip (words_text r)) (tl runs)"
      by auto
    let ?runs = "[] # (w # hd runs) # tl runs"
    have step: "after_loop (assemble_loop speaker_timeline intervals (w # ws)
         (transcript_lines, Some sp, current_text, Some t))
         = Inr (transcript_lines @ (?line # lines'))"
      using False speaker IH(1) by (simp add: append_line_def ts)
    from IH(2,3) have c: "concat ?runs = w # ws" by (cases runs) simp_all
    have "?runs \<noteq> []" "[] \<notin> set (tl ?runs)" using IH(4) by simp_all
    moreover have "map line_text (?line # lines')
         = py_strip (current_text @ words_text (hd ?runs))
           # map (\<lambda>r. py_strip (words_text r)) (tl ?runs)"
      using IH(5) by (simp add: words_text_Cons words_text_Nil line_text_def)
    ultimately show ?thesis using step c
      by (intro exI [of _ "?line # lines'"] exI [of _ ?runs]) blast
  qed
qed

lemma assemble_transcript_runs:
  assumes "speaker_timeline \<noteq> []"
    and "\<forall>w \<in> set words. hms_defined (word_start w)"
  shows "\<exists>transcript_lines runs.
           assemble_transcript speaker_timeline intervals words = Inr transcript_lines
         \<and> concat runs = words \<and> [] \<notin> set runs
         \<and> map line_text transcript_lines = map (\<lambda>r. py_strip (words_text r)) runs"
proof (cases words)
  case Nil
  have "assemble_transcript speaker_timeline intervals [] = Inr []"
    by (simp add: assemble_transcript_def after_loop_def append_line_def)
  moreover have "concat [] = ([] :: timed_word list)" "[] \<notin> set ([] :: timed_word list list)"
    "map line_text [] = map (\<lambda>r. py_strip (words_text r)) []"
    by simp_all
  ultimately show ?thesis unfolding Nil
    by (intro exI [of _ "[]"]) blast
next
  case (Cons w ws)
  from assms(2) Cons have ws_ok: "\<forall>w \<in> set ws. hms_defined (word_start w)"
    and w_ok: "hms_defined (word_start w)" by simp_all
  from get_current_speaker_total [OF assms(1)] obtain speaker
    where speaker: "get_current_speaker (word_start w) intervals speaker_timeline = Inr speaker"
    by blast
  from assemble_loop_pending [OF assms(1) ws_ok w_ok, of intervals "[]" speaker "word_word w"]
  obtain lines' runs where P:
    "after_loop (assemble_loop speaker_timeline intervals ws
       ([], Some speaker, word_word w, Some (word_start w))) = Inr ([] @ lines')"
    "concat runs = ws" "runs \<noteq> []" "[] \<notin> set (tl runs)"
    "map line_text lines'
       = py_strip (word_word w @ words_text (hd runs))
         # map (\<lambda>r. py_strip (words_text r)) (tl runs)"
    by auto
  let ?runs = "(w # hd runs) # tl runs"
  have "assemble_transcript speaker_timeline intervals (w # ws) = Inr lines'"
    using speaker P(1) by (simp add: assemble_transcript_def append_line_def)
  moreover from P(2,3) have "concat ?runs = w # ws" by (cases runs) simp_all
  moreover have "[] \<notin> set ?runs" using P(4) by simp
  moreover have "map line_text lines' = map (\<lambda>r. py_strip (words_text r)) ?runs"
    using P(5) by (simp add: words_text_Cons)
  ultimately show ?thesis unfolding Cons
    by (intro exI [of _ lines'] exI [of _ ?runs]) blast
qed

lemma words_text_concat: "words_text (concat runs) = concat (map words_text runs)"
  by (induction runs) (simp_all add: words_text_def)

lemma filter_lines_of_runs:
  assumes "map line_text transcript_lines = map (\<lambda>r. py_strip (words_text r)) runs"
  shows "filter (\<lambda>c. \<not> is_space c) (concat (map line_text transcript_lines))
           = filter (\<lambda>c. \<not> is_space c) (words_text (concat runs))"
proof -
  have "filter (\<lambda>c. \<not> is_space c) (concat (map (\<lambda>r. py_strip (words_text r)) runs))
      = filter (\<lambda>c. \<not> is_space c) (concat (map words_text runs))"
    by (induction runs) (simp_all add: filter_py_strip)
  with assms show ?thesis by (simp add: words_text_concat)
qed

text \<open>
  C2, the claim as stated, at \<open>spaced_words\<close>: the only line has the text \<open>a b\<close>, and
  the word texts concatenate to \<open> a b\<close> with its leading blank.
\<close>

theorem assemble_transcript_text_counterexample:
  "assemble_transcript one_speaker_timeline [] spaced_words
     = Inr [(lit ''0:00:00'', lit ''Al Bo'', lit ''a b'')]
   \<and> concat (map line_text [(lit ''0:00:00'', lit ''Al Bo'', lit ''a b'')])
       \<noteq> words_text spaced_words"
  by (simp add: assemble_transcript_def after_loop_def get_current_speaker_def append_line_def
      py_strip_def is_space_def seconds_to_hms_def timedelta_def timedelta_str_def py_int_def
      format_d_def format_02d_def digits.simps lit_def one_speaker_timeline_def
      spaced_words_def line_text_def words_text_def)

text \<open>
  C2, amended. For a non-empty cleaned timeline and words whose starts \<open>seconds_to_hms\<close>
  can format, the assembler returns lines whose texts are the stripped texts of
  consecutive non-empty runs of the input words, the runs making up the whole input in
  order; so the concatenated line texts and the concatenated word texts agree once the
  whitespace characters are removed from both.
\<close>

theorem assemble_transcript_text:
  assumes "speaker_timeline \<noteq> []"
    and "\<forall>w \<in> set words. hms_defined (word_start w)"
  shows "\<exists>transcript_lines runs.
           assemble_transcript speaker_timeline intervals words = Inr transcript_lines
         \<and> concat runs = words \<and> [] \<notin> set runs
         \<and> map line_text transcript_lines = map (\<lambda>r. py_strip (words_text r)) runs
         \<and> filter (\<lambda>c. \<not> is_space c) (concat (map line_text transcript_lines))
             = filter (\<lambda>c. \<not> is_space c) (words_text words)"
proof -
  from assemble_transcript_runs [OF assms, of intervals]
  obtain transcript_lines runs where R:
    "assemble_transcript speaker_timeline intervals words = Inr transcript_lines"
    "concat runs = words" "[] \<notin> set runs"
    "map line_text transcript_lines = map (\<lambda>r. py_strip (words_text r)) runs"
    by auto
  from filter_lines_of_runs [OF R(4)] R(2)
  have "filter (\<lambda>c. \<not> is_space c) (concat (map line_text transcript_lines))
      = filter (\<lambda>c. \<not> is_space c) (words_text words)"
    by simp
  with R show ?thesis
    by (intro exI [of _ transcript_lines] exI [of _ runs]) blast
qed

theorem assemble_transcript_text_witness:
  "one_speaker_timeline \<noteq> []
   \<and> list_all (\<lambda>w. hms_defined (word_start w)) spaced_words
   \<and> (\<exists>transcript_lines runs.
           assemble_transcript one_speaker_timeline [] spaced_words = Inr transcript_lines
         \<and> concat runs = spaced_words \<and> [] \<notin> set runs
         \<and> map line_text transcript_lines = map (\<lambda>r. py_strip (words_text r)) runs
         \<and> filter (\<lambda>c. \<not> is_space c) (concat (map line_text transcript_lines))
             = filter (\<lambda>c. \<not> is_space c) (words_text spaced_words))"
proof -
  have ne: "one_speaker_timeline \<noteq> []"
    by (simp add: one_speaker_timeline_def)
  have ok: "\<forall>w \<in> set spaced_words. hms_defined (word_start w)"
    by (simp add: spaced_words_def hms_defined_def py_int_def)
  from ok have ok': "list_all (\<lambda>w. hms_defined (word_start w)) spaced_words"
    by (simp add: list_all_iff)
  show ?thesis
    by (intro conjI ne ok' assemble_transcript_text [OF ne ok])
qed

section \<open>Name-shape validator properties\<close>

subsection \<open>The matcher decides the language of the pattern\<close>

lemma conc_empty [simp]: "conc {} B = {}" "conc A {} = {}"
  by (auto simp: conc_def)

lemma conc_unit [simp]: "conc {[]} B = B"
  by (auto simp: conc_def)

lemma lang_cat: "lang (cat r s) = conc (lang r) (lang s)"
  by (induction r s rule: cat.induct) simp_all

lemma lang_alt: "lang (alt r s) = lang r \<union> lang s"
  by (induction r s rule: alt.induct) simp_all

lemma Nil_in_conc: "[] \<in> conc A B \<longleftrightarrow> [] \<in> A \<and> [] \<in> B"
  by (auto simp: conc_def)

lemma Nil_in_star: "[] \<in> star A"
proof -
  have "[] = concat ([] :: pystr list)" "set ([] :: pystr list) \<subseteq> A" by simp_all
  then show ?thesis unfolding star_def by blast
qed

lemma nullable_iff: "nullable r \<longleftrightarrow> [] \<in> lang r"
  by (induction r) (auto simp: Nil_in_conc Nil_in_star)

lemma quotient_conc:
  "{w. c # w \<in> conc A B}
     = conc {w. c # w \<in> A} B \<union> (if [] \<in> A then {w. c # w \<in> B} else {})"
proof (intro set_eqI iffI)
  fix w assume "w \<in> {w. c # w \<in> conc A B}"
  then obtain u v where uv: "c # w = u @ v" "u \<in> A" "v \<in> B"
    by (auto simp: conc_def)
  show "w \<in> conc {w. c # w \<in> A} B \<union> (if [] \<in> A then {w. c # w \<in> B} else {})"
  proof (cases u)
    case Nil
    with uv show ?thesis by simp
  next
    case (Cons a u')
    with uv have "a = c" "w = u' @ v" "c # u' \<in> A" by simp_all
    with uv(3) have "w \<in> conc {w. c # w \<in> A} B" unfolding conc_def by blast
    then show ?thesis by simp
  qed
next
  fix w assume w: "w \<in> conc {w. c # w \<in> A} B \<union> (if [] \<in> A then {w. c # w \<in> B} else {})"
  show "w \<in> {w. c # w \<in> conc A B}"
  proof (cases "w \<in> conc {w. c # w \<in> A} B")
    case True
    then obtain u v where "w = u @ v" "c # u \<in> A" "v \<in> B" by (auto simp: conc_def)
    then have "c # w = (c # u) @ v \<and> c # u \<in> A \<and> v \<in> B" by simp
    then show ?thesis unfolding conc_def by blast
  next
    case False
    with w have "[] \<in> A" "c # w \<in> B" by (auto split: if_splits)
    then have "c # w = [] @ (c # w) \<and> [] \<in> A \<and> c # w \<in> B" by simp
    then show ?thesis unfolding conc_def by blast
  qed
qed

lemma concat_Cons_split:
  assumes "c # w = concat ws" and "set ws \<subseteq> A"
  shows "\<exists>u vs. w = u @ concat vs \<and> c # u \<in> A \<and> set vs \<subseteq> A"
  using assms
proof (induction ws)
  case Nil
  then show ?case by simp
next
  case (Cons x xs)
  show ?case
  proof (cases x)
    case Nil
    with Cons.prems have "c # w = concat xs" "set xs \<subseteq> A" by simp_all
    then show ?thesis by (rule Cons.IH)
  next
    case (Cons a x')
    with Cons.prems have "w = x' @ concat xs" "c # x' \<in> A" "set xs \<subseteq> A" by simp_all
    then show ?thesis by blast
  qed
qed

lemma quotient_star:
  "{w. c # w \<in> star A} = conc {w. c # w \<in> A} (star A)"
proof (intro set_eqI iffI)
  fix w assume "w \<in> {w. c # w \<in> star A}"
  then obtain ws where "c # w = concat ws" "set ws \<subseteq> A" by (auto simp: star_def)
  from concat_Cons_split [OF this] obtain u vs
    where "w = u @ concat vs" "c # u \<in> A" "set vs \<subseteq> A" by blast
  then have "w = u @ concat vs \<and> u \<in> {w. c # w \<in> A} \<and> concat vs \<in> star A"
    unfolding star_def by blast
  then show "w \<in> conc {w. c # w \<in> A} (star A)" unfolding conc_def by blast
next
  fix w assume "w \<in> conc {w. c # w \<in> A} (star A)"
  then obtain u vs where "w = u @ concat vs" "c # u \<in> A" "set vs \<subseteq> A"
    by (auto simp: conc_def star_def)
  then have "c # w = concat ((c # u) # vs) \<and> set ((c # u) # vs) \<subseteq> A" by simp
  then show "w \<in> {w. c # w \<in> star A}" unfolding star_def by blast
qed

lemma quotient_plus:
  "{w. c # w \<in> conc A (star A)} = conc {w. c # w \<in> A} (star A)"
  by (simp add: quotient_conc quotient_star)

lemma lang_deriv: "lang (deriv c r) = {w. c # w \<in> lang r}"
proof (induction r)
  case (Cat r s)
  then show ?case
    by (simp add: lang_alt lang_cat quotient_conc nullable_iff)
next
  case (Alt r s)
  then show ?case by (auto simp: lang_alt)
next
  case (Star r)
  then show ?case by (simp add: lang_cat quotient_star)
next
  case (Plus r)
  then show ?case by (simp add: lang_cat quotient_plus)
qed auto

lemma fullmatch_iff: "fullmatch r s \<longleftrightarrow> s \<in> lang r"
proof -
  have "nullable (foldl (\<lambda>r c. deriv c r) r s) \<longleftrightarrow> s \<in> lang r" for r
    by (induction s arbitrary: r) (simp_all add: nullable_iff lang_deriv)
  then show ?thesis by (simp add: fullmatch_def)
qed

subsection \<open>The language of the name pattern\<close>

lemma concI: "u \<in> A \<Longrightarrow> v \<in> B \<Longrightarrow> u @ v \<in> conc A B"
  unfolding conc_def by blast

lemma concE:
  assumes "w \<in> conc A B"
  obtains u v where "w = u @ v" "u \<in> A" "v \<in> B"
  using assms unfolding conc_def by blast

lemma starI: "set ws \<subseteq> A \<Longrightarrow> concat ws \<in> star A"
  unfolding star_def by blast

lemma starE:
  assumes "w \<in> star A"
  obtains ws where "w = concat ws" "set ws \<subseteq> A"
  using assms unfolding star_def by blast

lemma star_chars: "star {[c] | c. P c} = {w. list_all P w}"
proof (intro set_eqI iffI)
  fix w assume "w \<in> star {[c] | c. P c}"
  then obtain ws where ws: "w = concat ws" "set ws \<subseteq> {[c] | c. P c}"
    by (rule starE)
  from ws(2) have "list_all P (concat ws)"
    by (induction ws) auto
  with ws(1) show "w \<in> {w. list_all P w}" by simp
next
  fix w assume "w \<in> {w. list_all P w}"
  then have "set (map (\<lambda>c. [c]) w) \<subseteq> {[c] | c. P c}"
    by (induction w) auto
  then have "concat (map (\<lambda>c. [c]) w) \<in> star {[c] | c. P c}" by (rule starI)
  moreover have "concat (map (\<lambda>c. [c]) w) = w" by (induction w) simp_all
  ultimately show "w \<in> star {[c] | c. P c}" by simp
qed

lemma star_pred: "star {w. P w} = {concat ws | ws. list_all P ws}"
  by (auto simp: star_def list_all_iff)

lemma lang_upper_class: "lang upper_class = {[c] | c. uppercase c}"
  by (simp add: upper_class_def in_ranges_def uppercase_def)

lemma lang_lower_class: "lang lower_class = {[c] | c. lowercase c}"
  by (simp add: lower_class_def in_ranges_def lowercase_def)

lemma lang_joiner_class: "lang joiner_class = {[c] | c. c = 39 \<or> c = 45}"
  by (auto simp: joiner_class_def in_ranges_def)

lemma lang_lower_star: "lang (Star lower_class) = {w. list_all lowercase w}"
  by (simp add: lang_lower_class star_chars)

lemma lang_lower_plus:
  "lang (Plus lower_class) = {ls. ls \<noteq> [] \<and> list_all lowercase ls}"
proof (intro set_eqI iffI)
  fix w assume "w \<in> lang (Plus lower_class)"
  then have "w \<in> conc {[c] | c. lowercase c} {w. list_all lowercase w}"
    by (simp add: lang_lower_class star_chars)
  then obtain u v where "w = u @ v" "u \<in> {[c] | c. lowercase c}" "v \<in> {w. list_all lowercase w}"
    by (rule concE)
  then show "w \<in> {ls. ls \<noteq> [] \<and> list_all lowercase ls}" by auto
next
  fix w assume "w \<in> {ls. ls \<noteq> [] \<and> list_all lowercase ls}"
  then obtain c ls where w: "w = [c] @ ls" "lowercase c" "list_all lowercase ls"
    by (cases w) auto
  then have "[c] \<in> {[c] | c. lowercase c}" "ls \<in> {w. list_all lowercase w}" by auto
  then have "[c] @ ls \<in> conc {[c] | c. lowercase c} {w. list_all lowercase w}"
    by (rule concI)
  with w(1) show "w \<in> lang (Plus lower_class)"
    by (simp add: lang_lower_class star_chars)
qed

lemma lang_joined_part:
  "lang (Cat joiner_class (Cat upper_class (Plus lower_class))) = {w. joined_part w}"
proof (intro set_eqI iffI)
  fix w assume "w \<in> lang (Cat joiner_class (Cat upper_class (Plus lower_class)))"
  then have "w \<in> conc (lang joiner_class) (conc (lang upper_class) (lang (Plus lower_class)))"
    by simp
  then obtain a b where ab: "w = a @ b" "a \<in> lang joiner_class"
    "b \<in> conc (lang upper_class) (lang (Plus lower_class))"
    by (rule concE)
  from ab(3) obtain c d where cd: "b = c @ d" "c \<in> lang upper_class"
    "d \<in> lang (Plus lower_class)"
    by (rule concE)
  from ab(2) obtain q where q: "a = [q]" "q = 39 \<or> q = 45"
    unfolding lang_joiner_class by blast
  from cd(2) obtain u where u: "c = [u]" "uppercase u"
    unfolding lang_upper_class by blast
  from cd(3) have d: "d \<noteq> []" "list_all lowercase d"
    unfolding lang_lower_plus by simp_all
  from ab(1) cd(1) q(1) u(1) have "w = q # u # d" by simp
  with q(2) u(2) d show "w \<in> {w. joined_part w}"
    unfolding joined_part_def by blast
next
  fix w assume "w \<in> {w. joined_part w}"
  then obtain q u ls where w: "w = q # u # ls" "q = 39 \<or> q = 45" "uppercase u"
    "ls \<noteq> []" "list_all lowercase ls"
    unfolding joined_part_def by blast
  from w(4,5) have a: "ls \<in> lang (Plus lower_class)" unfolding lang_lower_plus by simp
  from w(3) have b: "[u] \<in> lang upper_class" by (simp add: lang_upper_class)
  from w(2) have c: "[q] \<in> lang joiner_class" by (simp add: lang_joiner_class)
  have "[q] @ ([u] @ ls)
      \<in> conc (lang joiner_class) (conc (lang upper_class) (lang (Plus lower_class)))"
    by (rule concI [OF c concI [OF b a]])
  with w(1) show "w \<in> lang (Cat joiner_class (Cat upper_class (Plus lower_class)))"
    by simp
qed

lemma lang_joined_star:
  "lang (Star (Cat joiner_class (Cat upper_class (Plus lower_class))))
     = {concat js | js. list_all joined_part js}"
  unfolding lang.simps(7) lang_joined_part by (rule star_pred)

lemma lang_token_pattern_conc:
  "lang token_pattern
     = conc (lang upper_class)
         (conc (lang (Star lower_class))
            (lang (Star (Cat joiner_class (Cat upper_class (Plus lower_class))))))"
  unfolding token_pattern_def by (simp only: lang.simps(5))

lemma lang_token_pattern: "lang token_pattern = {t. name_token t}"
proof (intro set_eqI iffI)
  fix t assume "t \<in> lang token_pattern"
  then obtain a b where ab: "t = a @ b" "a \<in> lang upper_class"
    "b \<in> conc (lang (Star lower_class))
            (lang (Star (Cat joiner_class (Cat upper_class (Plus lower_class)))))"
    unfolding lang_token_pattern_conc by (rule concE)
  from ab(3) obtain ls d where ld: "b = ls @ d" "ls \<in> lang (Star lower_class)"
    "d \<in> lang (Star (Cat joiner_class (Cat upper_class (Plus lower_class))))"
    by (rule concE)
  from ab(2) obtain u where u: "a = [u]" "uppercase u"
    unfolding lang_upper_class by blast
  from ld(2) have ls: "list_all lowercase ls" unfolding lang_lower_star by simp
  from ld(3) obtain js where js: "d = concat js" "list_all joined_part js"
    unfolding lang_joined_star by blast
  from ab(1) ld(1) u(1) js(1) have "t = (u # ls) @ concat js" by simp
  moreover from u(2) ls have "token_head (u # ls)" unfolding token_head_def by blast
  ultimately show "t \<in> {t. name_token t}"
    unfolding name_token_def using js(2) by blast
next
  fix t assume "t \<in> {t. name_token t}"
  then obtain w js where t: "t = w @ concat js" "token_head w" "list_all joined_part js"
    unfolding name_token_def by blast
  from t(2) obtain u ls where w: "w = u # ls" "uppercase u" "list_all lowercase ls"
    unfolding token_head_def by blast
  from t(3) have a: "concat js \<in> lang (Star (Cat joiner_class (Cat upper_class (Plus lower_class))))"
    unfolding lang_joined_star by blast
  from w(3) have b: "ls \<in> lang (Star lower_class)" unfolding lang_lower_star by simp
  from w(2) have c: "[u] \<in> lang upper_class" by (simp add: lang_upper_class)
  have "[u] @ (ls @ concat js) \<in> lang token_pattern"
    unfolding lang_token_pattern_conc by (rule concI [OF c concI [OF b a]])
  with t(1) w(1) show "t \<in> lang token_pattern" by simp
qed

lemma lang_token_space:
  "lang (Cat token_pattern Whitespace) = {t @ [sep] | t sep. name_token t \<and> is_space sep}"
  by (auto simp: conc_def lang_token_pattern)

lemma separated_tokens:
  "(\<forall>x \<in> set xs. \<exists>t sep. x = t @ [sep] \<and> P t \<and> Q sep)
     \<longleftrightarrow> (\<exists>ts seps. length seps = length ts
            \<and> xs = map (\<lambda>(t, sep). t @ [sep]) (zip ts seps)
            \<and> list_all P ts \<and> list_all Q seps)"
proof (induction xs)
  case Nil
  have "\<exists>ts seps. length seps = length ts
      \<and> [] = map (\<lambda>(t, sep). t @ [sep]) (zip ts seps)
      \<and> list_all P ts \<and> list_all Q seps"
    by (rule exI [of _ "[]"], rule exI [of _ "[]"]) simp
  then show ?case by simp
next
  case (Cons x xs)
  show ?case
  proof
    assume L: "\<forall>y \<in> set (x # xs). \<exists>t sep. y = t @ [sep] \<and> P t \<and> Q sep"
    then obtain t sep where x: "x = t @ [sep]" "P t" "Q sep" by auto
    from L Cons.IH obtain ts seps where R: "length seps = length ts"
      "xs = map (\<lambda>(t, sep). t @ [sep]) (zip ts seps)" "list_all P ts" "list_all Q seps"
      by auto
    have "length (sep # seps) = length (t # ts)
        \<and> x # xs = map (\<lambda>(t, sep). t @ [sep]) (zip (t # ts) (sep # seps))
        \<and> list_all P (t # ts) \<and> list_all Q (sep # seps)"
      using x R by simp
    then show "\<exists>ts seps. length seps = length ts
        \<and> x # xs = map (\<lambda>(t, sep). t @ [sep]) (zip ts seps)
        \<and> list_all P ts \<and> list_all Q seps"
      by (intro exI [of _ "t # ts"] exI [of _ "sep # seps"])
  next
    assume "\<exists>ts seps. length seps = length ts
        \<and> x # xs = map (\<lambda>(t, sep). t @ [sep]) (zip ts seps)
        \<and> list_all P ts \<and> list_all Q seps"
    then obtain ts seps where R: "length seps = length ts"
      "x # xs = map (\<lambda>(t, sep). t @ [sep]) (zip ts seps)" "list_all P ts" "list_all Q seps"
      by auto
    from R(2) obtain t ts' where ts: "ts = t # ts'" by (cases ts) auto
    with R(1) obtain sep seps' where seps: "seps = sep # seps'" by (cases seps) auto
    from R ts seps have here: "x = t @ [sep]" "P t" "Q sep" by auto
    from R ts seps have "length seps' = length ts'
        \<and> xs = map (\<lambda>(t, sep). t @ [sep]) (zip ts' seps')
        \<and> list_all P ts' \<and> list_all Q seps'"
      by auto
    then have "\<exists>ts seps. length seps = length ts
        \<and> xs = map (\<lambda>(t, sep). t @ [sep]) (zip ts seps)
        \<and> list_all P ts \<and> list_all Q seps"
      by (intro exI [of _ ts'] exI [of _ seps'])
    with Cons.IH here show "\<forall>y \<in> set (x # xs). \<exists>t sep. y = t @ [sep] \<and> P t \<and> Q sep"
      by auto
  qed
qed

lemma lang_name_pattern_conc:
  "lang name_pattern
     = conc (conc (lang (Cat token_pattern Whitespace))
                  (star (lang (Cat token_pattern Whitespace))))
            (lang token_pattern)"
  unfolding name_pattern_def by (simp only: lang.simps(5) lang.simps(8))

lemma lang_name_pattern: "s \<in> lang name_pattern \<longleftrightarrow> name_shape s"
proof
  assume "s \<in> lang name_pattern"
  then obtain h t where ht: "s = h @ t"
    "h \<in> conc (lang (Cat token_pattern Whitespace)) (star (lang (Cat token_pattern Whitespace)))"
    "t \<in> lang token_pattern"
    unfolding lang_name_pattern_conc by (rule concE)
  from ht(2) obtain x r where xr: "h = x @ r" "x \<in> lang (Cat token_pattern Whitespace)"
    "r \<in> star (lang (Cat token_pattern Whitespace))"
    by (rule concE)
  from xr(3) obtain xs where xs: "r = concat xs" "set xs \<subseteq> lang (Cat token_pattern Whitespace)"
    by (rule starE)
  from ht(3) have t: "name_token t" by (simp add: lang_token_pattern)
  from xr(2) xs(2)
  have "\<forall>y \<in> set (x # xs). \<exists>t sep. y = t @ [sep] \<and> name_token t \<and> is_space sep"
    unfolding lang_token_space by auto
  then obtain ts seps where R: "length seps = length ts"
    "x # xs = map (\<lambda>(t, sep). t @ [sep]) (zip ts seps)"
    "list_all name_token ts" "list_all is_space seps"
    unfolding separated_tokens by auto
  from R(2) have ne: "ts \<noteq> []" by auto
  have "s = concat (x # xs) @ t" using ht(1) xr(1) xs(1) by simp
  then have "s = concat (map (\<lambda>(t, sep). t @ [sep]) (zip ts seps)) @ t"
    by (simp only: R(2))
  with ne R(1,3,4) t show "name_shape s"
    unfolding name_shape_def by (intro exI [of _ ts] exI [of _ seps] exI [of _ t]) simp
next
  assume "name_shape s"
  then obtain ts seps t where R: "s = concat (map (\<lambda>(t, sep). t @ [sep]) (zip ts seps)) @ t"
    "ts \<noteq> []" "length seps = length ts"
    "list_all name_token ts" "list_all is_space seps" "name_token t"
    unfolding name_shape_def by auto
  let ?xs = "map (\<lambda>(t, sep). t @ [sep]) (zip ts seps)"
  from R(3,4,5) have "\<exists>ts' seps'. length seps' = length ts'
      \<and> ?xs = map (\<lambda>(t, sep). t @ [sep]) (zip ts' seps')
      \<and> list_all name_token ts' \<and> list_all is_space seps'"
    by (intro exI [of _ ts] exI [of _ seps]) simp
  then have all: "\<forall>y \<in> set ?xs. \<exists>t sep. y = t @ [sep] \<and> name_token t \<and> is_space sep"
    unfolding separated_tokens .
  from R(2,3) obtain x xs where xs: "?xs = x # xs"
    by (cases ts; cases seps) auto
  with all have a: "x \<in> lang (Cat token_pattern Whitespace)"
    and b: "set xs \<subseteq> lang (Cat token_pattern Whitespace)"
    unfolding lang_token_space by auto
  from R(6) have c: "t \<in> lang token_pattern" by (simp add: lang_token_pattern)
  have "(x @ concat xs) @ t \<in> lang name_pattern"
    unfolding lang_name_pattern_conc by (rule concI [OF concI [OF a starI [OF b]] c])
  moreover have "s = (x @ concat xs) @ t" using R(1) xs by simp
  ultimately show "s \<in> lang name_pattern" by simp
qed

subsection \<open>The validator on names\<close>

lemmas is_valid_name_eval =
  is_valid_name_def fullmatch_def name_pattern_def token_pattern_def upper_class_def
  lower_class_def joiner_class_def in_ranges_def is_space_def lit_def

lemma is_valid_name_shape: "is_valid_name s \<longleftrightarrow> name_shape s"
  by (simp add: is_valid_name_def fullmatch_iff lang_name_pattern)

lemma capitalized_word_A: "capitalized_word [65]"
  unfolding capitalized_word_def
  by (rule exI [of _ 65], rule exI [of _ "[]"]) (simp add: uppercase_def)

lemma capitalized_word_Bo: "capitalized_word [66, 111]"
  unfolding capitalized_word_def
  by (rule exI [of _ 66], rule exI [of _ "[111]"]) (simp add: uppercase_def lowercase_def)

lemma spec_token_Bo_A: "spec_token [66, 111, 45, 65]"
proof -
  have "([66, 111, 45, 65] :: pystr) = [66, 111] @ 45 # [65]
      \<and> (45 = (39::nat) \<or> 45 = (45::nat))
      \<and> capitalized_word [66, 111] \<and> capitalized_word [65]"
    by (simp add: capitalized_word_A capitalized_word_Bo)
  then have "\<exists>a q b. ([66, 111, 45, 65] :: pystr) = a @ q # b \<and> (q = 39 \<or> q = 45)
      \<and> capitalized_word a \<and> capitalized_word b"
    by (intro exI [of _ "[66, 111]"] exI [of _ 45] exI [of _ "[65]"])
  then show ?thesis by (simp only: spec_token_def simp_thms)
qed

lemma spec_name_Bo_A_Bo: "spec_name [66, 111, 45, 65, 32, 66, 111]"
proof -
  have last_token: "spec_token [66, 111]"
    by (simp add: spec_token_def capitalized_word_Bo)
  have "([66, 111, 45, 65, 32, 66, 111] :: pystr)
        = concat (map (\<lambda>(t, sep). t @ [sep]) (zip [[66, 111, 45, 65]] [32])) @ [66, 111]
      \<and> [[66, 111, 45, 65]] \<noteq> ([] :: pystr list)
      \<and> length [32 :: nat] = length [[66, 111, 45, 65 :: nat]]
      \<and> list_all spec_token [[66, 111, 45, 65]] \<and> list_all is_space [32]
      \<and> spec_token [66, 111]"
    by (simp add: spec_token_Bo_A last_token is_space_def)
  then show ?thesis
    unfolding spec_name_def
    by (intro exI [of _ "[[66, 111, 45, 65]]"] exI [of _ "[32]"] exI [of _ "[66, 111]"])
qed

text \<open>
  C8, the general rule as stated, at \<open>Bo-A Bo\<close>: it is two whitespace-separated tokens,
  the first the capitalized word \<open>Bo\<close> hyphen-joined to the capitalized word \<open>A\<close>, and
  the validator rejects it, although it accepts \<open>A Bo\<close>, where \<open>A\<close> is a token.
\<close>

theorem is_valid_name_general_counterexample:
  "spec_name (lit ''Bo-A Bo'') \<and> \<not> is_valid_name (lit ''Bo-A Bo'')
   \<and> is_valid_name (lit ''A Bo'')"
proof -
  have "lit ''Bo-A Bo'' = [66, 111, 45, 65, 32, 66, 111]" by (simp add: lit_def)
  then have "spec_name (lit ''Bo-A Bo'')" by (simp only: spec_name_Bo_A_Bo)
  moreover have "\<not> is_valid_name (lit ''Bo-A Bo'')" by (simp add: is_valid_name_eval)
  moreover have "is_valid_name (lit ''A Bo'')" by (simp add: is_valid_name_eval)
  ultimately show ?thesis by simp
qed

text \<open>
  C8, amended. The validator accepts \<open>Jean-Paul Sartre\<close> and \<open>Ana Maria Lopez\<close>
  written with its two accented letters U+00ED and U+00F3, and rejects \<open>hello world\<close>, \<open>A\<close> and
  \<open>JOHN SMITH\<close>; in general it accepts exactly the strings made of one or more tokens,
  each followed by one whitespace character, and a last token, where a token is an
  uppercase letter, lowercase letters (possibly none), and any number of parts made of an
  apostrophe or hyphen, an uppercase letter and at least one lowercase letter.
\<close>

theorem is_valid_name_spec:
  "(is_valid_name s \<longleftrightarrow> name_shape s)
   \<and> is_valid_name (lit ''Jean-Paul Sartre'')
   \<and> is_valid_name (lit ''Ana Mar'' @ [237] @ lit ''a L'' @ [243] @ lit ''pez'')
   \<and> \<not> is_valid_name (lit ''hello world'')
   \<and> \<not> is_valid_name (lit ''A'')
   \<and> \<not> is_valid_name (lit ''JOHN SMITH'')"
proof -
  have "is_valid_name (lit ''Jean-Paul Sartre'')" by (simp add: is_valid_name_eval)
  moreover have "is_valid_name (lit ''Ana Mar'' @ [237] @ lit ''a L'' @ [243] @ lit ''pez'')"
    by (simp add: is_valid_name_eval)
  moreover have "\<not> is_valid_name (lit ''hello world'')" by (simp add: is_valid_name_eval)
  moreover have "\<not> is_valid_name (lit ''A'')" by (simp add: is_valid_name_eval)
  moreover have "\<not> is_valid_name (lit ''JOHN SMITH'')" by (simp add: is_valid_name_eval)
  ultimately show ?thesis using is_valid_name_shape [of s] by blast
qed

section \<open>Sampler properties\<close>

lemma frame_timestamp_eq:
  "frame_timestamp fl frame_idx fps
     = max 0 (fl_sub fl (fl_div fl (fl_of_int fl frame_idx) fps) 2.5)"
  by (simp add: frame_timestamp_def VOICE_TIMESTAMP_OFFSET_def)

lemma sample_frame_spec:
  "sample_frame timestamp frame primary_box secondary_box (results, previous)
     = (case (case spec_accepted_name frame primary_box secondary_box of
                Some name \<Rightarrow> Some name
              | None \<Rightarrow> previous) of
          None \<Rightarrow> (results, None)
        | Some speaker \<Rightarrow> (results @ [(timestamp, speaker)], Some speaker))"
  by (cases "try_ocr frame primary_box"; cases "try_ocr frame secondary_box"; cases previous)
    (auto simp: sample_frame_def spec_accepted_name_def falsy_def Let_def)

lemma spec_observations_Nil:
  "spec_observations fl cap primary_box secondary_box previous [] = []"
  by (simp add: spec_observations_def)

lemma spec_observations_Cons:
  "spec_observations fl cap primary_box secondary_box previous (frame_idx # rest)
     = (case (case spec_accepted_name (cap_frames cap ! nat frame_idx) primary_box secondary_box of
                Some name \<Rightarrow> Some name
              | None \<Rightarrow> previous) of
          None \<Rightarrow> spec_observations fl cap primary_box secondary_box None rest
        | Some speaker \<Rightarrow>
            (max 0 (fl_sub fl (fl_div fl (fl_of_int fl frame_idx) (cap_fps cap)) 2.5), speaker)
            # spec_observations fl cap primary_box secondary_box (Some speaker) rest)"
  by (cases "spec_accepted_name (cap_frames cap ! nat frame_idx) primary_box secondary_box";
      cases previous)
    (simp_all add: spec_observations_def)

lemma no_multiple_between:
  assumes "0 < (k :: int)" and "k dvd a" and "a < i" and "i < a + k"
  shows "\<not> k dvd i"
proof
  assume "k dvd i"
  from this assms(2) have "k dvd i - a" by (rule dvd_diff)
  moreover from assms(3,4) have "0 < i - a" "i - a < k" by simp_all
  ultimately show False using zdvd_not_zless by blast
qed

lemma multiples_step:
  assumes "0 < (k :: int)" and "k dvd a" and "a \<le> n"
  shows "filter (\<lambda>i. k dvd i) [a..n] = a # filter (\<lambda>i. k dvd i) [a + k..n]"
proof -
  from assms(3) have first: "[a..n] = a # [a + 1..n]"
    by (simp add: upto_rec1)
  have skip: "filter (\<lambda>i. k dvd i) [a + 1..n] = filter (\<lambda>i. k dvd i) [a + k..n]"
  proof (cases "a + k \<le> n")
    case True
    from assms(1) True have "[a + 1..n] = [a + 1..a + k - 1] @ [a + k..n]"
      using upto_split1 [of "a + 1" "a + k" n] by simp
    moreover have "filter (\<lambda>i. k dvd i) [a + 1..a + k - 1] = []"
      using no_multiple_between [OF assms(1,2)] by (auto simp: filter_empty_conv)
    ultimately show ?thesis by simp
  next
    case False
    then have "[a + k..n] = []" by simp
    moreover have "filter (\<lambda>i. k dvd i) [a + 1..n] = []"
      using no_multiple_between [OF assms(1,2)] False by (auto simp: filter_empty_conv)
    ultimately show ?thesis by simp
  qed
  from first skip assms(2) show ?thesis by simp
qed

lemma sample_loop_spec:
  assumes "0 < frame_skip" and "frame_skip dvd frame_idx" and "0 \<le> frame_idx"
    and "cap_opened cap" and "\<not> (message_queue \<and> total_frames = 0)"
  shows "\<exists>last_valid_speaker.
           sample_loop fl message_queue cap primary_box secondary_box frame_skip total_frames
             frame_idx (results, previous)
           = Inr (results
                  @ spec_observations fl cap primary_box secondary_box previous
                      (filter (\<lambda>i. frame_skip dvd i)
                         [frame_idx..int (length (cap_frames cap)) - 1]),
                  last_valid_speaker)"
  using assms
proof (induction fl message_queue cap primary_box secondary_box frame_skip total_frames
    frame_idx "(results, previous)" arbitrary: results previous rule: sample_loop.induct)
  case (1 fl message_queue cap primary_box secondary_box frame_skip total_frames frame_idx)
  let ?n = "int (length (cap_frames cap))"
  show ?case
  proof (cases "frame_idx < ?n")
    case False
    then have "[frame_idx..?n - 1] = []" by simp
    moreover from False have "sample_loop fl message_queue cap primary_box secondary_box
        frame_skip total_frames frame_idx (results, previous) = Inr (results, previous)"
      by (subst sample_loop.simps) simp
    ultimately show ?thesis
      by (simp add: spec_observations_Nil)
  next
    case True
    with "1.prems" have cond: "cap_opened cap \<and> frame_skip \<noteq> 0
        \<and> 0 \<le> frame_idx \<and> frame_idx < ?n" by simp
    let ?ts = "frame_timestamp fl frame_idx (cap_fps cap)"
    let ?label = "case spec_accepted_name (cap_frames cap ! nat frame_idx)
        primary_box secondary_box of Some name \<Rightarrow> Some name | None \<Rightarrow> previous"
    let ?results = "case ?label of None \<Rightarrow> results | Some speaker \<Rightarrow> results @ [(?ts, speaker)]"
    have frame: "sample_frame ?ts (cap_frames cap ! nat frame_idx) primary_box secondary_box
        (results, previous) = (?results, ?label)"
      by (simp add: sample_frame_spec split: option.splits)
    from "1.prems"(2) have dvd: "frame_skip dvd frame_idx + frame_skip" by simp
    from "1.prems"(3,1) have nonneg: "0 \<le> frame_idx + frame_skip" by simp
    from "1.hyps" [OF cond "1.prems"(5) frame "1.prems"(1) dvd nonneg "1.prems"(4,5)]
    obtain last_valid_speaker where IH:
      "sample_loop fl message_queue cap primary_box secondary_box frame_skip total_frames
         (frame_idx + frame_skip) (?results, ?label)
       = Inr (?results
              @ spec_observations fl cap primary_box secondary_box ?label
                  (filter (\<lambda>i. frame_skip dvd i) [frame_idx + frame_skip..?n - 1]),
              last_valid_speaker)"
      by blast
    have unfold: "sample_loop fl message_queue cap primary_box secondary_box frame_skip
        total_frames frame_idx (results, previous)
      = sample_loop fl message_queue cap primary_box secondary_box frame_skip total_frames
          (frame_idx + frame_skip) (?results, ?label)"
      using cond "1.prems"(5) frame by (subst sample_loop.simps) auto
    from True have "frame_idx \<le> ?n - 1" by simp
    from multiples_step [OF "1.prems"(1,2) this]
    have indices: "filter (\<lambda>i. frame_skip dvd i) [frame_idx..?n - 1]
        = frame_idx # filter (\<lambda>i. frame_skip dvd i) [frame_idx + frame_skip..?n - 1]" .
    have "results @ spec_observations fl cap primary_box secondary_box previous
          (filter (\<lambda>i. frame_skip dvd i) [frame_idx..?n - 1])
        = ?results @ spec_observations fl cap primary_box secondary_box ?label
          (filter (\<lambda>i. frame_skip dvd i) [frame_idx + frame_skip..?n - 1])"
      unfolding indices spec_observations_Cons
      by (simp add: frame_timestamp_eq split: option.splits)
    with unfold IH show ?thesis by simp
  qed
qed

lemma spec_observations_stamps:
  assumes "obs \<in> set (spec_observations fl cap primary_box secondary_box previous indices)"
  shows "\<exists>frame_idx \<in> set indices.
           fst obs = max 0 (fl_sub fl (fl_div fl (fl_of_int fl frame_idx) (cap_fps cap)) 2.5)"
  using assms
proof (induction indices arbitrary: previous)
  case Nil
  then show ?case by (simp add: spec_observations_Nil)
next
  case (Cons frame_idx rest)
  from Cons.prems have "fst obs
        = max 0 (fl_sub fl (fl_div fl (fl_of_int fl frame_idx) (cap_fps cap)) 2.5)
      \<or> (\<exists>label. obs \<in> set (spec_observations fl cap primary_box secondary_box label rest))"
    unfolding spec_observations_Cons by (auto split: option.splits)
  then show ?case
  proof
    assume "fst obs = max 0 (fl_sub fl (fl_div fl (fl_of_int fl frame_idx) (cap_fps cap)) 2.5)"
    then show ?thesis by simp
  next
    assume "\<exists>label. obs \<in> set (spec_observations fl cap primary_box secondary_box label rest)"
    then obtain label
      where "obs \<in> set (spec_observations fl cap primary_box secondary_box label rest)"
      by blast
    from Cons.IH [OF this] show ?thesis by auto
  qed
qed

lemma raw_speaker_labels_spec:
  assumes "0 < frame_skip_of cap"
  shows "raw_speaker_labels fl cap message_queue
           = (if progress_fails cap message_queue then Inl ZeroDivisionError
              else Inr (spec_timeline fl cap))"
proof (cases "cap_opened cap")
  case False
  then have "sample_loop fl message_queue cap (primary_box_of fl cap) (secondary_box_of fl cap)
      (frame_skip_of cap) (total_frames_of cap) 0 ([], None) = Inr ([], None)"
    by (subst sample_loop.simps) simp
  with False assms show ?thesis
    by (simp add: raw_speaker_labels_def progress_fails_def spec_timeline_def
        spec_frame_indices_def spec_observations_Nil)
next
  case opened: True
  show ?thesis
  proof (cases "message_queue \<and> total_frames_of cap = 0")
    case True
    show ?thesis
    proof (cases "cap_frames cap = []")
      case empty: True
      then have "sample_loop fl message_queue cap (primary_box_of fl cap)
          (secondary_box_of fl cap) (frame_skip_of cap) (total_frames_of cap) 0 ([], None)
          = Inr ([], None)"
        by (subst sample_loop.simps) simp
      with empty assms show ?thesis
        by (simp add: raw_speaker_labels_def progress_fails_def spec_timeline_def
            spec_frame_indices_def spec_observations_Nil)
    next
      case False
      with opened True assms have "sample_loop fl message_queue cap (primary_box_of fl cap)
          (secondary_box_of fl cap) (frame_skip_of cap) (total_frames_of cap) 0 ([], None)
          = Inl ZeroDivisionError"
        by (subst sample_loop.simps) simp
      with False opened True assms show ?thesis
        by (simp add: raw_speaker_labels_def progress_fails_def)
    qed
  next
    case False
    have "frame_skip_of cap dvd 0" "(0 :: int) \<le> 0" by simp_all
    from sample_loop_spec [OF assms this opened False, of fl "primary_box_of fl cap"
        "secondary_box_of fl cap" "[]" None]
    obtain last_valid_speaker where
      "sample_loop fl message_queue cap (primary_box_of fl cap) (secondary_box_of fl cap)
         (frame_skip_of cap) (total_frames_of cap) 0 ([], None)
       = Inr (spec_timeline fl cap, last_valid_speaker)"
      by (auto simp: spec_timeline_def spec_frame_indices_def opened)
    with False assms show ?thesis
      by (auto simp: raw_speaker_labels_def progress_fails_def)
  qed
qed

lemma subseq_set: "subseq xs ys \<Longrightarrow> set xs \<subseteq> set ys"
  by (auto simp: subseq_conv_nths dest: in_set_nthsD)

text \<open>
  C9. With a frame skip of 0 the sampler raises. With a positive frame skip the raw
  timeline is the list, over the sampled frames in order that have a label, of the
  observation of that frame: its timestamp is the index of that very frame divided by the
  frame rate, minus the latency 2.5, floored at 0, in the arithmetic of floats; the
  sampler returns the raw timeline denoised, unless its progress report divides by a frame
  count of 0. Every timestamp of the raw and of the returned timeline is at least 0.
\<close>

theorem extract_speaker_labels_timestamps:
  "(frame_skip_of cap = 0 \<longrightarrow>
      raw_speaker_labels fl cap message_queue = Inl ZeroDivisionError
      \<and> extract_speaker_labels fl cap message_queue = Inl ZeroDivisionError)
   \<and> (0 < frame_skip_of cap \<longrightarrow>
        raw_speaker_labels fl cap message_queue
          = (if progress_fails cap message_queue then Inl ZeroDivisionError
             else Inr (spec_timeline fl cap))
        \<and> extract_speaker_labels fl cap message_queue
          = (if progress_fails cap message_queue then Inl ZeroDivisionError
             else Inr (filter_noisy_speakers (spec_timeline fl cap))))
   \<and> (\<forall>obs \<in> set (spec_timeline fl cap) \<union> set (filter_noisy_speakers (spec_timeline fl cap)).
        0 \<le> fst obs
        \<and> (\<exists>frame_idx \<in> set (spec_frame_indices cap).
              fst obs = max 0 (fl_sub fl (fl_div fl (fl_of_int fl frame_idx) (cap_fps cap)) 2.5)))"
proof -
  have zero: "raw_speaker_labels fl cap message_queue = Inl ZeroDivisionError
      \<and> extract_speaker_labels fl cap message_queue = Inl ZeroDivisionError"
    if "frame_skip_of cap = 0"
    using that by (simp add: raw_speaker_labels_def extract_speaker_labels_def)
  have pos: "raw_speaker_labels fl cap message_queue
          = (if progress_fails cap message_queue then Inl ZeroDivisionError
             else Inr (spec_timeline fl cap))
        \<and> extract_speaker_labels fl cap message_queue
          = (if progress_fails cap message_queue then Inl ZeroDivisionError
             else Inr (filter_noisy_speakers (spec_timeline fl cap)))"
    if "0 < frame_skip_of cap"
    using raw_speaker_labels_spec [OF that, of fl message_queue]
    by (simp add: extract_speaker_labels_def)
  have sub: "set (filter_noisy_speakers (spec_timeline fl cap)) \<subseteq> set (spec_timeline fl cap)"
    by (rule subseq_set) (rule filter_noisy_speakers_subseq)
  have stamps: "0 \<le> fst obs
      \<and> (\<exists>frame_idx \<in> set (spec_frame_indices cap).
            fst obs = max 0 (fl_sub fl (fl_div fl (fl_of_int fl frame_idx) (cap_fps cap)) 2.5))"
    if "obs \<in> set (spec_timeline fl cap)" for obs
  proof -
    from that spec_observations_stamps obtain frame_idx
      where f: "frame_idx \<in> set (spec_frame_indices cap)"
        "fst obs = max 0 (fl_sub fl (fl_div fl (fl_of_int fl frame_idx) (cap_fps cap)) 2.5)"
      unfolding spec_timeline_def by blast
    from f(2) have "0 \<le> fst obs" by simp
    with f show ?thesis by blast
  qed
  from zero pos sub stamps show ?thesis by blast
qed

lemma five_frame_capture_timeline:
  "spec_timeline exact_arith five_frame_capture
     = [(0, lit ''Al Bo''), (0, lit ''Al Bo''), (0, lit ''Al Bo''),
        (0.5, lit ''Al Bo''), (1.5, lit ''Al Bo'')]"
proof -
  have skip: "frame_skip_of five_frame_capture = 1"
    by (simp add: frame_skip_of_def five_frame_capture_def FRAME_INTERVAL_def py_int_def)
  have indices: "spec_frame_indices five_frame_capture = [0, 1, 2, 3, 4]"
    by (simp add: spec_frame_indices_def skip) (simp add: five_frame_capture_def upto_rec1)
  have primary: "primary_box_of exact_arith five_frame_capture = (0, 90, 20, 10)"
    by (simp add: primary_box_of_def get_crop_box_def PRIMARY_CROP_BOX_def exact_arith_def
        five_frame_capture_def py_int_def)
  have badge: "spec_accepted_name badge_frame (0, 90, 20, 10) secondary_box = Some (lit ''Al Bo'')"
    for secondary_box
    by (simp add: spec_accepted_name_def try_ocr_def badge_frame_def replace_zero_def
        is_valid_name_eval py_strip_def Let_def)
  have blank: "spec_accepted_name blank_frame primary_box secondary_box = None"
    for primary_box secondary_box
    by (simp add: spec_accepted_name_def try_ocr_def blank_frame_def Let_def)
  have frames: "cap_frames five_frame_capture
      = [badge_frame, blank_frame, badge_frame, blank_frame, badge_frame]"
    "cap_fps five_frame_capture = 1"
    by (simp_all add: five_frame_capture_def)
  show ?thesis
    unfolding spec_timeline_def indices primary
    by (simp add: spec_observations_Cons spec_observations_Nil frames badge blank exact_arith_def)
qed

theorem extract_speaker_labels_timestamps_witness:
  "0 < frame_skip_of five_frame_capture
   \<and> raw_speaker_labels exact_arith five_frame_capture True
       = Inr [(0, lit ''Al Bo''), (0, lit ''Al Bo''), (0, lit ''Al Bo''),
              (0.5, lit ''Al Bo''), (1.5, lit ''Al Bo'')]
   \<and> extract_speaker_labels exact_arith five_frame_capture True
       = Inr [(0, lit ''Al Bo''), (0, lit ''Al Bo''), (0, lit ''Al Bo''),
              (0.5, lit ''Al Bo''), (1.5, lit ''Al Bo'')]
   \<and> (1.5, lit ''Al Bo'') \<in> set (spec_timeline exact_arith five_frame_capture)
   \<and> (\<exists>frame_idx \<in> set (spec_frame_indices five_frame_capture).
         (1.5 :: real)
           = max 0 (fl_sub exact_arith
                      (fl_div exact_arith (fl_of_int exact_arith frame_idx)
                         (cap_fps five_frame_capture)) 2.5))"
proof -
  let ?label = "lit ''Al Bo''"
  let ?timeline = "[(0, ?label), (0, ?label), (0, ?label), (0.5, ?label), (1.5, ?label)]
      :: observation list"
  have skip: "0 < frame_skip_of five_frame_capture"
    by (simp add: frame_skip_of_def five_frame_capture_def FRAME_INTERVAL_def py_int_def)
  have runs: "\<not> progress_fails five_frame_capture True"
    by (simp add: progress_fails_def total_frames_of_def five_frame_capture_def py_int_def)
  have clean: "filter_noisy_speakers ?timeline = ?timeline"
    by (simp add: filter_noisy_speakers_def enumerate_list_def upt_rec)
  note spec = extract_speaker_labels_timestamps [of five_frame_capture exact_arith True]
  from spec skip runs have raw: "raw_speaker_labels exact_arith five_frame_capture True
      = Inr (spec_timeline exact_arith five_frame_capture)"
    by simp
  from spec skip runs have ret: "extract_speaker_labels exact_arith five_frame_capture True
      = Inr (filter_noisy_speakers (spec_timeline exact_arith five_frame_capture))"
    by simp
  have raw': "raw_speaker_labels exact_arith five_frame_capture True = Inr ?timeline"
    using raw by (simp only: five_frame_capture_timeline)
  have ret': "extract_speaker_labels exact_arith five_frame_capture True = Inr ?timeline"
    using ret by (simp only: five_frame_capture_timeline clean)
  have mem: "(1.5, ?label) \<in> set (spec_timeline exact_arith five_frame_capture)"
    by (simp add: five_frame_capture_timeline)
  then have "(1.5, ?label) \<in> set (spec_timeline exact_arith five_frame_capture)
      \<union> set (filter_noisy_speakers (spec_timeline exact_arith five_frame_capture))"
    by simp
  with spec have "\<exists>frame_idx \<in> set (spec_frame_indices five_frame_capture).
      fst (1.5 :: real, ?label)
        = max 0 (fl_sub exact_arith
                   (fl_div exact_arith (fl_of_int exact_arith frame_idx)
                      (cap_fps five_frame_capture)) 2.5)"
    by blast
  then have ex: "\<exists>frame_idx \<in> set (spec_frame_indices five_frame_capture).
      (1.5 :: real)
        = max 0 (fl_sub exact_arith
                   (fl_div exact_arith (fl_of_int exact_arith frame_idx)
                      (cap_fps five_frame_capture)) 2.5)"
    by (simp only: fst_conv)
  show ?thesis by (intro conjI skip raw' ret' mem ex)
qed

section \<open>Summarizer and workflow properties\<close>

lemma getitem_0_Inr:
  "getitem_0 v = Inr x \<longleftrightarrow>
     (\<exists>rest. v = JArr (x # rest)) \<or> (\<exists>c rest. v = JStr (c # rest) \<and> x = JStr [c])"
  by (cases v rule: getitem_0.cases) auto

lemma getitem_key_Inr:
  "getitem_key v key = Inr x \<longleftrightarrow> (\<exists>items. v = JObj items \<and> map_of items key = Some x)"
  by (cases v) (auto split: option.splits)

lemma response_path:
  "bind (getitem_key parsed (lit ''choices'')) (\<lambda>choices.
     bind (getitem_0 choices) (\<lambda>choice.
     bind (getitem_key choice (lit ''message'')) (\<lambda>message.
     getitem_key message (lit ''content'')))) = Inr content
   \<longleftrightarrow> content_at_path parsed = Some content"
proof
  assume L: "bind (getitem_key parsed (lit ''choices'')) (\<lambda>choices.
     bind (getitem_0 choices) (\<lambda>choice.
     bind (getitem_key choice (lit ''message'')) (\<lambda>message.
     getitem_key message (lit ''content'')))) = Inr content"
  then obtain choices where a: "getitem_key parsed (lit ''choices'') = Inr choices"
    and L1: "bind (getitem_0 choices) (\<lambda>choice.
       bind (getitem_key choice (lit ''message'')) (\<lambda>message.
       getitem_key message (lit ''content''))) = Inr content"
    by (auto simp: bind_def split: sum.splits)
  from L1 obtain choice where b: "getitem_0 choices = Inr choice"
    and L2: "bind (getitem_key choice (lit ''message'')) (\<lambda>message.
       getitem_key message (lit ''content'')) = Inr content"
    by (auto simp: bind_def split: sum.splits)
  from L2 obtain message where c: "getitem_key choice (lit ''message'') = Inr message"
    and d: "getitem_key message (lit ''content'') = Inr content"
    by (auto simp: bind_def split: sum.splits)
  from a obtain items where items: "parsed = JObj items"
    "map_of items (lit ''choices'') = Some choices"
    unfolding getitem_key_Inr by blast
  from c obtain citems where citems: "choice = JObj citems"
    "map_of citems (lit ''message'') = Some message"
    unfolding getitem_key_Inr by blast
  from d obtain mitems where mitems: "message = JObj mitems"
    "map_of mitems (lit ''content'') = Some content"
    unfolding getitem_key_Inr by blast
  from b citems(1) obtain rest where rest: "choices = JArr (JObj citems # rest)"
    unfolding getitem_0_Inr by auto
  show "content_at_path parsed = Some content"
    by (simp add: content_at_path_def items rest citems mitems)
next
  assume R: "content_at_path parsed = Some content"
  then obtain items where items: "parsed = JObj items"
    by (cases parsed) (simp_all add: content_at_path_def)
  from R items obtain citems rest where ch:
    "map_of items (lit ''choices'') = Some (JArr (JObj citems # rest))"
    by (auto simp: content_at_path_def split: option.splits json.splits list.splits)
  from R items ch obtain mitems where ms:
    "map_of citems (lit ''message'') = Some (JObj mitems)"
    by (auto simp: content_at_path_def split: option.splits json.splits)
  from R items ch ms have ct: "map_of mitems (lit ''content'') = Some content"
    by (simp add: content_at_path_def)
  show "bind (getitem_key parsed (lit ''choices'')) (\<lambda>choices.
     bind (getitem_0 choices) (\<lambda>choice.
     bind (getitem_key choice (lit ''message'')) (\<lambda>message.
     getitem_key message (lit ''content'')))) = Inr content"
    by (simp add: bind_def items ch ms ct)
qed

lemma read_response_Inr:
  "read_response outcome = Inr content \<longleftrightarrow>
     (\<exists>status body. outcome = Response status (Some body)
        \<and> \<not> (400 \<le> status \<and> status < 600) \<and> content_at_path body = Some content)"
proof (cases outcome)
  case NoResponse
  then show ?thesis by (simp add: read_response_def)
next
  case (Response status body)
  show ?thesis
  proof (cases body)
    case None
    with Response show ?thesis by (simp add: read_response_def)
  next
    case (Some parsed)
    with Response show ?thesis
      by (simp add: read_response_def response_path)
  qed
qed

lemma read_response_Inl:
  "(\<exists>e. read_response outcome = Inl e) \<longleftrightarrow>
     outcome = NoResponse
     \<or> (\<exists>status body. outcome = Response status body
           \<and> ((400 \<le> status \<and> status < 600) \<or> body = None
               \<or> (\<exists>parsed. body = Some parsed \<and> content_at_path parsed = None)))"
proof -
  have "(\<exists>e. read_response outcome = Inl e) \<longleftrightarrow> (\<forall>content. read_response outcome \<noteq> Inr content)"
    by (cases "read_response outcome") simp_all
  also have "\<dots> \<longleftrightarrow> \<not> (\<exists>content status body. outcome = Response status (Some body)
        \<and> \<not> (400 \<le> status \<and> status < 600) \<and> content_at_path body = Some content)"
    unfolding read_response_Inr by blast
  also have "\<dots> \<longleftrightarrow> outcome = NoResponse
     \<or> (\<exists>status body. outcome = Response status body
           \<and> ((400 \<le> status \<and> status < 600) \<or> body = None
               \<or> (\<exists>parsed. body = Some parsed \<and> content_at_path parsed = None)))"
  proof (cases outcome)
    case NoResponse
    then show ?thesis by simp
  next
    case (Response status body)
    then show ?thesis by (cases body) auto
  qed
  finally show ?thesis .
qed

lemma summarize_transcript_formatted:
  assumes "env_format env (summary_prompt_format settings) transcript = Inr summary_prompt"
  shows "summarize_transcript env transcript settings w
           = (read_response (env_endpoint env (summary_request settings summary_prompt)),
              w\<lparr>exchanges := exchanges w @ [summary_request settings summary_prompt]\<rparr>)"
  using assms by (simp add: summarize_transcript_def Let_def)

lemma transcribe_with_speakers_summary_failure:
  assumes "extract_speaker_labels fl cap message_queue = Inr speaker_timeline"
    and "assemble_transcript speaker_timeline
           (extract_speech_intervals fl segments (flatten_words segments)) (flatten_words segments)
           = Inr transcript_lines"
    and "env_can_open env (transcript_path env settings)"
    and "summarize_transcript_setting settings"
    and "summarize_transcript env (full_transcript transcript_lines) settings
           (w0\<lparr>files := (files w0)(transcript_path env settings
                                     \<mapsto> render_transcript transcript_lines)\<rparr>) = (Inl e, w2)"
  shows "transcribe_with_speakers fl env cap segments settings message_queue w0 = (Inl e, w2)"
  using assms
  by (simp add: transcribe_with_speakers_def Let_def write_text_def transcript_path_def)

lemma five_frame_capture_labels:
  "extract_speaker_labels exact_arith five_frame_capture message_queue
     = Inr [(0, lit ''Al Bo''), (0, lit ''Al Bo''), (0, lit ''Al Bo''),
            (0.5, lit ''Al Bo''), (1.5, lit ''Al Bo'')]"
proof -
  let ?label = "lit ''Al Bo''"
  have skip: "0 < frame_skip_of five_frame_capture"
    by (simp add: frame_skip_of_def five_frame_capture_def FRAME_INTERVAL_def py_int_def)
  have runs: "\<not> progress_fails five_frame_capture message_queue"
    by (simp add: progress_fails_def total_frames_of_def five_frame_capture_def py_int_def)
  have clean: "filter_noisy_speakers
        [(0, ?label), (0, ?label), (0, ?label), (0.5, ?label), (1.5 :: real, ?label)]
      = [(0, ?label), (0, ?label), (0, ?label), (0.5, ?label), (1.5, ?label)]"
    by (simp add: filter_noisy_speakers_def enumerate_list_def upt_rec)
  from raw_speaker_labels_spec [OF skip, of exact_arith message_queue] runs
  have "extract_speaker_labels exact_arith five_frame_capture message_queue
      = Inr (filter_noisy_speakers (spec_timeline exact_arith five_frame_capture))"
    by (simp add: extract_speaker_labels_def)
  then show ?thesis by (simp only: five_frame_capture_timeline clean)
qed

lemma blank_capture_labels: "extract_speaker_labels fl blank_capture message_queue = Inr []"
proof -
  have skip: "frame_skip_of blank_capture = 1"
    by (simp add: frame_skip_of_def blank_capture_def FRAME_INTERVAL_def py_int_def)
  have runs: "\<not> progress_fails blank_capture message_queue"
    by (simp add: progress_fails_def total_frames_of_def blank_capture_def py_int_def)
  have indices: "spec_frame_indices blank_capture = [0, 1]"
    by (simp add: spec_frame_indices_def skip) (simp add: blank_capture_def upto_rec1)
  have blank: "spec_accepted_name blank_frame primary_box secondary_box = None"
    for primary_box secondary_box
    by (simp add: spec_accepted_name_def try_ocr_def blank_frame_def Let_def)
  have frames: "cap_frames blank_capture = [blank_frame, blank_frame]"
    by (simp add: blank_capture_def)
  have timeline: "spec_timeline fl blank_capture = []"
    unfolding spec_timeline_def indices
    by (simp add: spec_observations_Cons spec_observations_Nil frames blank)
  from skip have "0 < frame_skip_of blank_capture" by simp
  from raw_speaker_labels_spec [OF this, of fl message_queue] runs
  show ?thesis
    by (simp add: extract_speaker_labels_def timeline filter_noisy_speakers_def
        enumerate_list_def)
qed

lemma pause_segments_lines:
  "assemble_transcript
     [(0, lit ''Al Bo''), (0, lit ''Al Bo''), (0, lit ''Al Bo''),
      (0.5, lit ''Al Bo''), (1.5, lit ''Al Bo'')]
     (extract_speech_intervals fl pause_segments (flatten_words pause_segments))
     (flatten_words pause_segments)
     = Inr [(lit ''0:00:00'', lit ''Al Bo'', lit ''abc'')]"
  by (simp add: assemble_transcript_def after_loop_def get_current_speaker_def append_line_def
      py_strip_def is_space_def seconds_to_hms_def timedelta_def timedelta_str_def py_int_def
      format_d_def format_02d_def digits.simps lit_def pause_segments_def flatten_words_def)

lemma example_transcript_path:
  "transcript_path failing_env example_settings = lit ''out/transcript.txt''"
  by (simp add: transcript_path_def path_join_def failing_env_def example_settings_def lit_def)

text \<open>
  C10, the claim as stated, at \<open>empty_body_env\<close>: the endpoint answers with the success
  status 200 and a body without \<open>choices\<close>, and the adapter raises \<open>KeyError\<close>.
\<close>

theorem summarize_transcript_status_counterexample:
  "env_endpoint empty_body_env (summary_request example_settings (lit ''TRANSCRIPT Al Bo: abc''))
     = Response 200 (Some (JObj []))
   \<and> fst (summarize_transcript empty_body_env (lit ''Al Bo: abc'') example_settings empty_world)
       = Inl KeyError"
  by (simp add: summarize_transcript_def empty_body_env_def example_settings_def
      read_response_def bind_def Let_def)

text \<open>
  C10, amended. Once the prompt template has been filled, the adapter posts exactly one
  request and leaves the files alone. It returns the content found at
  \<open>choices[0].message.content\<close> of the response body, unchanged, exactly when there is
  a response whose status is outside 400 to 599 and whose body is JSON holding that path;
  it raises exactly when there is no response, or the status is from 400 to 599, or the
  body is not JSON, or the path is missing. When the adapter raises in a run whose
  transcript has been written, the run raises the same error and the files are those left
  by the transcript write, whatever the arithmetic of floats and with or without a message
  queue.
\<close>

theorem summarize_transcript_spec:
  assumes "env_format env (summary_prompt_format settings) transcript = Inr summary_prompt"
  shows "exchanges (snd (summarize_transcript env transcript settings w))
           = exchanges w @ [summary_request settings summary_prompt]
       \<and> files (snd (summarize_transcript env transcript settings w)) = files w
       \<and> (\<forall>content. fst (summarize_transcript env transcript settings w) = Inr content \<longleftrightarrow>
            (\<exists>status body.
               env_endpoint env (summary_request settings summary_prompt)
                 = Response status (Some body)
               \<and> \<not> (400 \<le> status \<and> status < 600) \<and> content_at_path body = Some content))
       \<and> ((\<exists>e. fst (summarize_transcript env transcript settings w) = Inl e) \<longleftrightarrow>
            env_endpoint env (summary_request settings summary_prompt) = NoResponse
            \<or> (\<exists>status body.
                  env_endpoint env (summary_request settings summary_prompt)
                    = Response status body
                  \<and> ((400 \<le> status \<and> status < 600) \<or> body = None
                      \<or> (\<exists>parsed. body = Some parsed \<and> content_at_path parsed = None))))
       \<and> (\<forall>fl message_queue cap segments w0 speaker_timeline transcript_lines e.
            extract_speaker_labels fl cap message_queue = Inr speaker_timeline
            \<and> assemble_transcript speaker_timeline
                 (extract_speech_intervals fl segments (flatten_words segments))
                 (flatten_words segments) = Inr transcript_lines
            \<and> env_can_open env (transcript_path env settings)
            \<and> summarize_transcript_setting settings
            \<and> transcript = full_transcript transcript_lines
            \<and> w = w0\<lparr>files := (files w0)(transcript_path env settings
                                           \<mapsto> render_transcript transcript_lines)\<rparr>
            \<and> fst (summarize_transcript env transcript settings w) = Inl e
            \<longrightarrow> fst (transcribe_with_speakers fl env cap segments settings message_queue w0)
                  = Inl e
              \<and> files (snd (transcribe_with_speakers fl env cap segments settings
                               message_queue w0))
                  = (files w0)(transcript_path env settings
                                 \<mapsto> render_transcript transcript_lines))"
proof -
  note run = summarize_transcript_formatted [OF assms, of w]
  have a: "exchanges (snd (summarize_transcript env transcript settings w))
      = exchanges w @ [summary_request settings summary_prompt]"
    by (simp add: run)
  have b: "files (snd (summarize_transcript env transcript settings w)) = files w"
    by (simp add: run)
  have c: "fst (summarize_transcript env transcript settings w) = Inr content \<longleftrightarrow>
      (\<exists>status body.
         env_endpoint env (summary_request settings summary_prompt) = Response status (Some body)
         \<and> \<not> (400 \<le> status \<and> status < 600) \<and> content_at_path body = Some content)"
    for content
    by (simp add: run read_response_Inr)
  have d: "(\<exists>e. fst (summarize_transcript env transcript settings w) = Inl e) \<longleftrightarrow>
      env_endpoint env (summary_request settings summary_prompt) = NoResponse
      \<or> (\<exists>status body.
            env_endpoint env (summary_request settings summary_prompt) = Response status body
            \<and> ((400 \<le> status \<and> status < 600) \<or> body = None
                \<or> (\<exists>parsed. body = Some parsed \<and> content_at_path parsed = None)))"
    by (simp add: run read_response_Inl)
  have e: "fst (transcribe_with_speakers fl env cap segments settings message_queue w0) = Inl e
      \<and> files (snd (transcribe_with_speakers fl env cap segments settings message_queue w0))
          = (files w0)(transcript_path env settings \<mapsto> render_transcript transcript_lines)"
    if "extract_speaker_labels fl cap message_queue = Inr speaker_timeline"
      and "assemble_transcript speaker_timeline
             (extract_speech_intervals fl segments (flatten_words segments))
             (flatten_words segments) = Inr transcript_lines"
      and "env_can_open env (transcript_path env settings)"
      and "summarize_transcript_setting settings"
      and "transcript = full_transcript transcript_lines"
      and "w = w0\<lparr>files := (files w0)(transcript_path env settings
                                       \<mapsto> render_transcript transcript_lines)\<rparr>"
      and "fst (summarize_transcript env transcript settings w) = Inl e"
    for fl message_queue cap segments w0 speaker_timeline transcript_lines e
  proof -
    let ?w2 = "snd (summarize_transcript env transcript settings w)"
    from that(7) have "summarize_transcript env transcript settings w = (Inl e, ?w2)"
      by (simp add: prod_eq_iff)
    with that(5,6) have "summarize_transcript env (full_transcript transcript_lines) settings
        (w0\<lparr>files := (files w0)(transcript_path env settings
                                  \<mapsto> render_transcript transcript_lines)\<rparr>) = (Inl e, ?w2)"
      by simp
    from transcribe_with_speakers_summary_failure [OF that(1,2,3,4) this]
    have "transcribe_with_speakers fl env cap segments settings message_queue w0
        = (Inl e, ?w2)" .
    moreover from b that(6) have "files ?w2
        = (files w0)(transcript_path env settings \<mapsto> render_transcript transcript_lines)"
      by simp
    ultimately show ?thesis by simp
  qed
  from a b c d e show ?thesis by blast
qed

theorem summarize_transcript_spec_witness:
  "env_format failing_env (summary_prompt_format example_settings) (lit ''Al Bo: abc'')
     = Inr (lit ''TRANSCRIPT Al Bo: abc'')
   \<and> exchanges (snd (summarize_transcript failing_env (lit ''Al Bo: abc'') example_settings
        (empty_world\<lparr>files := (files empty_world)(lit ''out/transcript.txt''
                                  \<mapsto> lit ''[0:00:00] Al Bo: abc'' @ [10])\<rparr>)))
       = [summary_request example_settings (lit ''TRANSCRIPT Al Bo: abc'')]
   \<and> fst (summarize_transcript failing_env (lit ''Al Bo: abc'') example_settings
        (empty_world\<lparr>files := (files empty_world)(lit ''out/transcript.txt''
                                  \<mapsto> lit ''[0:00:00] Al Bo: abc'' @ [10])\<rparr>))
       = Inl HTTPError
   \<and> fst (transcribe_with_speakers exact_arith failing_env five_frame_capture
            pause_segments example_settings True empty_world) = Inl HTTPError
   \<and> files (snd (transcribe_with_speakers exact_arith failing_env five_frame_capture
                   pause_segments example_settings True empty_world))
       = (files empty_world)(lit ''out/transcript.txt'' \<mapsto> lit ''[0:00:00] Al Bo: abc'' @ [10])"
proof -
  let ?lines = "[(lit ''0:00:00'', lit ''Al Bo'', lit ''abc'')] :: transcript_line list"
  let ?w1 = "empty_world\<lparr>files := (files empty_world)(lit ''out/transcript.txt''
                                  \<mapsto> lit ''[0:00:00] Al Bo: abc'' @ [10])\<rparr>"
  have fmt: "env_format failing_env (summary_prompt_format example_settings) (lit ''Al Bo: abc'')
      = Inr (lit ''TRANSCRIPT Al Bo: abc'')"
    by (simp add: failing_env_def example_settings_def lit_def)
  note spec = summarize_transcript_spec [OF fmt, of ?w1]
  have full: "lit ''Al Bo: abc'' = full_transcript ?lines"
    by (simp add: full_transcript_def lit_def)
  have rendered: "render_transcript ?lines = lit ''[0:00:00] Al Bo: abc'' @ [10]"
    by (simp add: render_transcript_def lit_def)
  have w1: "?w1 = empty_world\<lparr>files := (files empty_world)
      (transcript_path failing_env example_settings \<mapsto> render_transcript ?lines)\<rparr>"
    by (simp only: example_transcript_path rendered)
  have opens: "env_can_open failing_env (transcript_path failing_env example_settings)"
    by (simp add: failing_env_def)
  have flag: "summarize_transcript_setting example_settings"
    by (simp add: example_settings_def)
  have fails: "fst (summarize_transcript failing_env (lit ''Al Bo: abc'') example_settings ?w1)
      = Inl HTTPError"
    by (simp add: summarize_transcript_def failing_env_def read_response_def Let_def)
  have once: "exchanges (snd (summarize_transcript failing_env (lit ''Al Bo: abc'')
      example_settings ?w1)) = [summary_request example_settings (lit ''TRANSCRIPT Al Bo: abc'')]"
    using spec [THEN conjunct1] by (simp add: empty_world_def)
  note failure = spec [THEN conjunct2, THEN conjunct2, THEN conjunct2, THEN conjunct2,
      rule_format, where fl = exact_arith and message_queue = True
        and cap = five_frame_capture and segments = pause_segments
        and transcript_lines = ?lines and ?w0.0 = empty_world and e = HTTPError
        and speaker_timeline = "[(0, lit ''Al Bo''), (0, lit ''Al Bo''), (0, lit ''Al Bo''),
            (0.5, lit ''Al Bo''), (1.5, lit ''Al Bo'')]"]
  have run: "fst (transcribe_with_speakers exact_arith failing_env five_frame_capture
        pause_segments example_settings True empty_world) = Inl HTTPError
      \<and> files (snd (transcribe_with_speakers exact_arith failing_env five_frame_capture
            pause_segments example_settings True empty_world))
          = (files empty_world)(transcript_path failing_env example_settings
               \<mapsto> render_transcript ?lines)"
    by (rule failure) (intro conjI five_frame_capture_labels pause_segments_lines opens flag
        full w1 fails)
  then have run': "fst (transcribe_with_speakers exact_arith failing_env five_frame_capture
        pause_segments example_settings True empty_world) = Inl HTTPError"
    "files (snd (transcribe_with_speakers exact_arith failing_env five_frame_capture
            pause_segments example_settings True empty_world))
       = (files empty_world)(lit ''out/transcript.txt'' \<mapsto> lit ''[0:00:00] Al Bo: abc'' @ [10])"
    by (simp_all only: example_transcript_path rendered)
  show ?thesis by (intro conjI fmt once fails run')
qed

text \<open>
  C3. With an empty cleaned timeline the lookup of the speaker of any word raises
  \<open>IndexError\<close>, and so does the assembly of any non-empty word list: no transcript line
  is produced. On \<open>blank_capture\<close>, where no name is ever recognized, the sampler returns
  the empty timeline, and the run on the words of \<open>pause_segments\<close> raises \<open>IndexError\<close>
  and leaves the files as they were.
\<close>

theorem assemble_transcript_empty_timeline:
  "get_current_speaker t intervals [] = Inl IndexError
   \<and> assemble_transcript [] intervals (word # rest) = Inl IndexError
   \<and> extract_speaker_labels fl blank_capture message_queue = Inr []
   \<and> transcribe_with_speakers fl env blank_capture pause_segments settings message_queue w0
       = (Inl IndexError, w0)"
proof -
  have a: "get_current_speaker t intervals [] = Inl IndexError"
    by (simp add: get_current_speaker_def)
  have b: "assemble_transcript [] intervals (word # rest) = Inl IndexError" for intervals word rest
    by (simp add: get_current_speaker_def assemble_transcript_def after_loop_def)
  obtain word rest where words: "flatten_words pause_segments = word # rest"
    by (simp add: flatten_words_def pause_segments_def)
  have "transcribe_with_speakers fl env blank_capture pause_segments settings message_queue w0
      = (Inl IndexError, w0)"
    by (simp add: transcribe_with_speakers_def blank_capture_labels Let_def words b)
  with a b blank_capture_labels show ?thesis by simp
qed

end
